theory Spec2Isabelle
  imports Main "HOL-Library.AList"
begin

section \<open>The file organizer of \<^verbatim>\<open>src/automation/file_organizer.py\<close>\<close>

text \<open>
  The organizer scans the regular files directly under a source directory, classifies each
  by its extension and, unless it runs as a dry run, moves it into a folder named after its
  category. The development embeds \<^verbatim>\<open>FileOrganizer.get_category\<close>,
  \<^verbatim>\<open>FileOrganizer.organize\<close> and \<^verbatim>\<open>FileOrganizer._print_summary\<close>.

  Scope of the model. File names are byte strings, as a POSIX system hands them to Python,
  which reads them as UTF-8 and keeps every byte that is not UTF-8 as a surrogate escape.
  The file system is a finite tree without links or concurrent writers; the calls made
  for one file (\<^verbatim>\<open>mkdir\<close>, \<^verbatim>\<open>exists\<close>, \<^verbatim>\<open>shutil.move\<close>) succeed or fail as the tree
  decides. What the tree does not show is given by the environment of the run: which file
  names the console can encode, and whether the source directory can be listed and its
  entries inspected. Lines of fixed text, numbers and error messages, and the path of the
  source directory in the line that announces the scan, are taken to reach the console;
  what is printed is recorded as a list of events.
\<close>

subsection \<open>Strings\<close>

text \<open>
  \<^verbatim>\<open>str.lower\<close> as far as the classifier can tell: the letters A to Z (codes 65 to 90)
  move up by 32, and the Kelvin sign U+212A, in UTF-8 the bytes E2 84 AA, becomes the
  letter k. No other character has a lower case made of ASCII characters only, and the
  extensions of the table are ASCII, so the lower case of any other character is left as
  it is.
\<close>

definition lower_char :: "char \<Rightarrow> char" where
  "lower_char c =
     (let n = (of_char c :: nat) in if 65 \<le> n \<and> n \<le> 90 then char_of (n + 32) else c)"

fun lower :: "string \<Rightarrow> string" where
  "lower (a # b # c # s) =
     (if a = CHR 0xE2 \<and> b = CHR 0x84 \<and> c = CHR 0xAA then CHR ''k'' # lower s
      else lower_char a # lower (b # c # s))"
| "lower (a # s) = lower_char a # lower s"
| "lower [] = []"

text \<open>\<^verbatim>\<open>str.rfind\<close> for a single character: the highest index holding it, or -1.\<close>

definition rfind :: "string \<Rightarrow> char \<Rightarrow> int" where
  "rfind s c =
     (if c \<in> set s then int (length s) - 1 - int (length (takeWhile (\<lambda>x. x \<noteq> c) (rev s)))
      else - 1)"

text \<open>
  \<^verbatim>\<open>PurePath.suffix\<close> and \<^verbatim>\<open>PurePath.stem\<close> of a final path component, as pathlib
  computes them up to CPython 3.13:
  \<^verbatim>\<open>i = name.rfind('.'); if 0 < i < len(name) - 1: return name[i:] else: return ''\<close>
  (and \<^verbatim>\<open>name[:i]\<close>, else \<^verbatim>\<open>name\<close>, for the stem). A leading dot and a trailing dot
  start no suffix. The dot is one byte and one character, so the test reads the same on
  the bytes of the name.
\<close>

definition suffix :: "string \<Rightarrow> string" where
  "suffix name =
     (let i = rfind name (CHR ''.'') in
      if 0 < i \<and> i < int (length name) - 1 then drop (nat i) name else [])"

definition stem :: "string \<Rightarrow> string" where
  "stem name =
     (let i = rfind name (CHR ''.'') in
      if 0 < i \<and> i < int (length name) - 1 then take (nat i) name else name)"

text \<open>The decimal numeral of a natural number, as an f-string formats \<^verbatim>\<open>counter\<close>.\<close>

fun string_of_nat :: "nat \<Rightarrow> string" where
  "string_of_nat n =
     (if n < 10 then [''0123456789'' ! n]
      else string_of_nat (n div 10) @ [''0123456789'' ! (n mod 10)])"

text \<open>
  Well-formed UTF-8 (table 3-7 of the Unicode standard), which is what the UTF-8 decoder of
  CPython accepts: a byte below 128; a lead byte C2 to DF, E0 to EF or F0 to F4 followed by
  one, two or three continuation bytes 80 to BF, where the second byte is further
  restricted after E0, ED, F0 and F4.
\<close>

definition continuation :: "char \<Rightarrow> bool" where
  "continuation c = (128 \<le> (of_char c :: nat) \<and> (of_char c :: nat) \<le> 191)"

fun utf8_valid :: "string \<Rightarrow> bool" where
  "utf8_valid [] = True"
| "utf8_valid (a # s) =
     (let n = (of_char a :: nat) in
      if n < 128 then utf8_valid s
      else if 194 \<le> n \<and> n \<le> 223 then
        (case s of b # r \<Rightarrow> continuation b \<and> utf8_valid r | _ \<Rightarrow> False)
      else if 224 \<le> n \<and> n \<le> 239 then
        (case s of
           b # c # r \<Rightarrow>
             (let m = (of_char b :: nat) in
              (if n = 224 then 160 \<le> m \<and> m \<le> 191
               else if n = 237 then 128 \<le> m \<and> m \<le> 159
               else continuation b)
              \<and> continuation c \<and> utf8_valid r)
         | _ \<Rightarrow> False)
      else if 240 \<le> n \<and> n \<le> 244 then
        (case s of
           b # c # d # r \<Rightarrow>
             (let m = (of_char b :: nat) in
              (if n = 240 then 144 \<le> m \<and> m \<le> 191
               else if n = 244 then 128 \<le> m \<and> m \<le> 143
               else continuation b)
              \<and> continuation c \<and> continuation d \<and> utf8_valid r)
         | _ \<Rightarrow> False)
      else False)"

subsection \<open>The category table and the classifier\<close>

text \<open>
  \<^verbatim>\<open>CATEGORIES\<close> is a dict literal; Python iterates a dict in insertion order, so the
  table is an association list in the order of the literal.
\<close>

definition CATEGORIES :: "(string \<times> string list) list" where
  "CATEGORIES =
     [(''Images'', [''.jpg'', ''.jpeg'', ''.png'', ''.gif'', ''.bmp'', ''.svg'', ''.webp'']),
      (''Documents'', [''.pdf'', ''.doc'', ''.docx'', ''.txt'', ''.xlsx'', ''.pptx'', ''.odt'']),
      (''Videos'', [''.mp4'', ''.avi'', ''.mkv'', ''.mov'', ''.wmv'', ''.flv'', ''.webm'']),
      (''Audio'', [''.mp3'', ''.wav'', ''.flac'', ''.aac'', ''.ogg'', ''.wma'']),
      (''Archives'', [''.zip'', ''.rar'', ''.7z'', ''.tar'', ''.gz'', ''.bz2'']),
      (''Code'', [''.py'', ''.js'', ''.html'', ''.css'', ''.java'', ''.cpp'', ''.c'', ''.h'']),
      (''Executables'', [''.exe'', ''.msi'', ''.apk'', ''.app'', ''.deb'', ''.rpm''])]"

text \<open>
  The loop \<^verbatim>\<open>for category, extensions in self.CATEGORIES.items()\<close> of
  \<^verbatim>\<open>get_category\<close>, with the \<^verbatim>\<open>return 'Others'\<close> that follows it.
\<close>

fun get_category_loop :: "(string \<times> string list) list \<Rightarrow> string \<Rightarrow> string" where
  "get_category_loop [] extension = ''Others''"
| "get_category_loop ((category, extensions) # rest) extension =
     (if extension \<in> set extensions then category else get_category_loop rest extension)"

definition get_category :: "string \<Rightarrow> string" where
  "get_category name = get_category_loop CATEGORIES (lower (suffix name))"

subsection \<open>The file system under the source directory\<close>

text \<open>
  A node is a regular file with its content or a directory with its entries in listing
  order. What lies at the source path is a \<open>node option\<close>: \<open>None\<close> when the path does
  not exist.
\<close>

datatype node = File nat | Dir "(string \<times> node) list"

type_synonym entries = "(string \<times> node) list"

datatype error =
    FileNotFoundError
  | NotADirectoryError
  | FileExistsError
  | ShutilError
  | PermissionError
  | UnicodeEncodeError

text \<open>The calls the organizer makes on the file system, in the order it makes them.\<close>

datatype fs_call =
    Iterdir
  | IsFile string
  | Mkdir string
  | Exists string string
  | Move string string string

text \<open>
  The lines the organizer prints. \<open>FileLine\<close> stands for the two lines 99 and 100, the
  name of the file and its category.
\<close>

datatype event =
    Banner
  | DryRunNotice
  | Scanning
  | NoFilesFound
  | Found nat
  | FileLine string string
  | RenamedTo string
  | ErrorLine error
  | SummaryHeader
  | WouldBeOrganized nat
  | OrganizedSuccessfully nat
  | ErrorsOccurred nat

record stats =
  moved :: nat
  skipped :: nat
  errors :: nat

text \<open>
  The state a run threads through its statements: the entries of the source directory,
  \<^verbatim>\<open>self.stats\<close>, the printed lines and the file-system calls made so far.
\<close>

record state =
  root :: entries
  stats :: stats
  out :: "event list"
  calls :: "fs_call list"

text \<open>
  The environment of a run, fixed while it runs.

  \<^item> \<open>encodable name\<close>: \<^verbatim>\<open>sys.stdout\<close> can encode the file name. With a UTF-8 console and
    the default error handler this holds of the names that are well-formed UTF-8; any
    other name holds a surrogate escape, and writing it raises \<^verbatim>\<open>UnicodeEncodeError\<close>.
  \<^item> \<open>iterdir_error\<close>: the error of \<^verbatim>\<open>os.listdir\<close> on the source directory when it is
    there, such as \<^verbatim>\<open>PermissionError\<close> for a directory that may not be read.
  \<^item> \<open>is_file_error name\<close>: the error of \<^verbatim>\<open>Path.is_file\<close> on the entry \<open>name\<close>, of the
    kind \<^verbatim>\<open>is_file\<close> does not swallow, such as \<^verbatim>\<open>PermissionError\<close> for a directory that
    may not be searched.
\<close>

record env =
  encodable :: "string \<Rightarrow> bool"
  iterdir_error :: "error option"
  is_file_error :: "string \<Rightarrow> error option"

text \<open>A UTF-8 console and a source directory that may be read and searched.\<close>

definition utf8_console :: env where
  "utf8_console =
     \<lparr>encodable = utf8_valid, iterdir_error = None, is_file_error = (\<lambda>name. None)\<rparr>"

definition is_file :: "node \<Rightarrow> bool" where
  "is_file n = (case n of File c \<Rightarrow> True | Dir es \<Rightarrow> False)"

text \<open>The entries of the directory \<open>d\<close> under the root; none when \<open>d\<close> is no directory.\<close>

definition dir_entries :: "entries \<Rightarrow> string \<Rightarrow> entries" where
  "dir_entries r d = (case map_of r d of Some (Dir es) \<Rightarrow> es | _ \<Rightarrow> [])"

text \<open>\<^verbatim>\<open>Path.exists\<close> of the path \<open>d/name\<close> below the root.\<close>

definition exists :: "entries \<Rightarrow> string \<Rightarrow> string \<Rightarrow> bool" where
  "exists r d name = (map_of (dir_entries r d) name \<noteq> None)"

text \<open>
  \<^verbatim>\<open>Path.mkdir(exist_ok=True)\<close> of the directory \<open>d\<close> under the root: it creates an empty
  directory, accepts one that is there, and raises \<^verbatim>\<open>FileExistsError\<close> when the path is
  taken by something that is not a directory.
\<close>

definition mkdir :: "string \<Rightarrow> entries \<Rightarrow> error + entries" where
  "mkdir d r =
     (case map_of r d of
        None \<Rightarrow> Inr (AList.update d (Dir []) r)
      | Some (Dir es) \<Rightarrow> Inr r
      | Some (File c) \<Rightarrow> Inl FileExistsError)"

text \<open>
  \<^verbatim>\<open>shutil.move\<close> of the root entry \<open>name\<close> to the path \<open>d/dest\<close>. When the destination
  is an existing directory the entry is moved into it, unless its name is taken there;
  otherwise the entry is renamed to the destination, and \<^verbatim>\<open>os.rename\<close> replaces a file
  that is there.
\<close>

definition move :: "string \<Rightarrow> string \<Rightarrow> string \<Rightarrow> entries \<Rightarrow> error + entries" where
  "move name d dest r =
     (case map_of r name of
        None \<Rightarrow> Inl FileNotFoundError
      | Some n \<Rightarrow>
          (if name = d then Inl (case n of File c \<Rightarrow> NotADirectoryError | Dir es \<Rightarrow> ShutilError)
           else
             (case map_of r d of
                None \<Rightarrow> Inl FileNotFoundError
              | Some (File c) \<Rightarrow> Inl NotADirectoryError
              | Some (Dir es) \<Rightarrow>
                  (case map_of es dest of
                     None \<Rightarrow>
                       Inr (AList.update d (Dir (AList.update dest n es)) (AList.delete name r))
                   | Some (File c) \<Rightarrow>
                       (if is_file n
                        then Inr (AList.update d (Dir (AList.update dest n es))
                                   (AList.delete name r))
                        else Inl FileExistsError)
                   | Some (Dir sub) \<Rightarrow>
                       (if map_of sub name \<noteq> None then Inl ShutilError
                        else Inr (AList.update d
                                   (Dir (AList.update dest (Dir (AList.update name n sub)) es))
                                   (AList.delete name r)))))))"

subsection \<open>Resolving a name conflict\<close>

text \<open>The name \<^verbatim>\<open>f"{base}_{counter}{ext}"\<close>.\<close>

definition candidate :: "string \<Rightarrow> string \<Rightarrow> nat \<Rightarrow> string" where
  "candidate base ext counter = base @ ''_'' @ string_of_nat counter @ ext"

text \<open>
  A bound on the counters whose candidate can be the name of an entry: a numeral of
  \<open>k\<close> digits denotes a number below \<open>10 ^ k\<close>, and no candidate is shorter than its
  numeral. It is used to show that the loop below ends.
\<close>

definition name_bound :: "entries \<Rightarrow> nat" where
  "name_bound es = 10 ^ sum_list (map (length \<circ> fst) es)"

text \<open>
  The loop
  \<^verbatim>\<open>while destination.exists(): destination = category_dir / f"{base}_{counter}{ext}"; counter += 1\<close>
  on the variables \<^verbatim>\<open>destination\<close> and \<^verbatim>\<open>counter\<close>; every test of the condition is a
  call to the file system and is recorded.
\<close>

function while_exists ::
  "entries \<Rightarrow> string \<Rightarrow> string \<Rightarrow> string \<Rightarrow> string \<times> nat \<times> fs_call list
     \<Rightarrow> string \<times> nat \<times> fs_call list" where
  "while_exists r d base ext (destination, counter, cs) =
     (if exists r d destination
      then while_exists r d base ext
             (candidate base ext counter, Suc counter, cs @ [Exists d destination])
      else (destination, counter, cs @ [Exists d destination]))"
  by pat_completeness auto

subsection \<open>The run\<close>

text \<open>\<^verbatim>\<open>Path(__file__).name\<close>: the name of the module's own file.\<close>

definition script_name :: string where
  "script_name = ''file_organizer.py''"

definition bump_moved :: "state \<Rightarrow> state" where
  "bump_moved s = s\<lparr>stats := (stats s)\<lparr>moved := moved (stats s) + 1\<rparr>\<rparr>"

definition bump_errors :: "state \<Rightarrow> state" where
  "bump_errors s = s\<lparr>stats := (stats s)\<lparr>errors := errors (stats s) + 1\<rparr>\<rparr>"

definition call :: "fs_call \<Rightarrow> state \<Rightarrow> state" where
  "call c s = s\<lparr>calls := calls s @ [c]\<rparr>"

text \<open>A line reaches the console.\<close>

definition write_line :: "event \<Rightarrow> state \<Rightarrow> state" where
  "write_line e s = s\<lparr>out := out s @ [e]\<rparr>"

text \<open>
  Whether the console can encode a line. The lines that hold a file name are those of the
  file and its category, and the one that tells the new name of a renamed file; the
  message of an error shows a file name in escaped form only.
\<close>

definition encodes :: "env \<Rightarrow> event \<Rightarrow> bool" where
  "encodes env e =
     (case e of
        FileLine name category \<Rightarrow> encodable env name
      | RenamedTo name \<Rightarrow> encodable env name
      | _ \<Rightarrow> True)"

text \<open>
  \<^verbatim>\<open>print\<close>: the line is written, or \<^verbatim>\<open>UnicodeEncodeError\<close> is raised with nothing
  written. Where the organizer prints a line that holds no file name the model writes
  it at once.
\<close>

definition print :: "env \<Rightarrow> event \<Rightarrow> state \<Rightarrow> error + state" where
  "print env e s = (if encodes env e then Inr (write_line e s) else Inl UnicodeEncodeError)"

text \<open>
  Lines 107 to 113, \<^verbatim>\<open>if destination.exists(): ...\<close>: the destination is the file's own
  name in the category folder unless that path exists; then the loop looks for a free
  name.
\<close>

definition handle_conflict :: "string \<Rightarrow> string \<Rightarrow> state \<Rightarrow> string \<times> state" where
  "handle_conflict category name s =
     (if exists (root s) category name then
        (case while_exists (root s) category (stem name) (suffix name)
                (name, 1, calls s @ [Exists category name]) of
           (destination, counter, cs) \<Rightarrow> (destination, s\<lparr>calls := cs\<rparr>))
      else (name, call (Exists category name) s))"

text \<open>
  How the body of the \<^verbatim>\<open>try\<close> statement ends for one file: it runs to its end, it
  leaves through \<^verbatim>\<open>continue\<close>, or a statement raises.
\<close>

datatype outcome = Completed | Continue | Raised error

text \<open>
  The body of the \<^verbatim>\<open>try\<close> statement, lines 90 to 120. A statement that raises leaves
  the state as the statements before it made it. The print of lines 99 and 100 comes
  before the test of the mode, so it can raise in a dry run as well. The print of line 114
  belongs to the block of line 107: it runs when the file's own name was taken in the
  category folder.
\<close>

definition try_body :: "env \<Rightarrow> bool \<Rightarrow> string \<Rightarrow> state \<Rightarrow> outcome \<times> state" where
  "try_body env dry_run name s =
     (if name = script_name then (Continue, s)
      else
        (let category = get_category name in
         case print env (FileLine name category) s of
           Inl e \<Rightarrow> (Raised e, s)
         | Inr s1 \<Rightarrow>
             if \<not> dry_run then
               (case mkdir category (root s1) of
                  Inl e \<Rightarrow> (Raised e, call (Mkdir category) s1)
                | Inr r2 \<Rightarrow>
                    (let s2 = call (Mkdir category) (s1\<lparr>root := r2\<rparr>) in
                     case handle_conflict category name s2 of
                       (destination, s3) \<Rightarrow>
                         (case (if exists (root s2) category name
                                then print env (RenamedTo destination) s3 else Inr s3) of
                            Inl e \<Rightarrow> (Raised e, s3)
                          | Inr s4 \<Rightarrow>
                              (case move name category destination (root s4) of
                                 Inl e \<Rightarrow> (Raised e, call (Move name category destination) s4)
                               | Inr r4 \<Rightarrow>
                                   (Completed,
                                    bump_moved
                                      (call (Move name category destination)
                                         (s4\<lparr>root := r4\<rparr>)))))))
             else (Completed, bump_moved s1)))"

text \<open>
  One turn of the \<^verbatim>\<open>for\<close> loop: the \<^verbatim>\<open>try\<close> body, and the handler
  \<^verbatim>\<open>except Exception as e\<close> that prints the error and counts it.
\<close>

definition process_file :: "env \<Rightarrow> bool \<Rightarrow> string \<Rightarrow> state \<Rightarrow> state" where
  "process_file env dry_run name s =
     (case try_body env dry_run name s of
        (Raised e, s') \<Rightarrow> bump_errors (write_line (ErrorLine e) s')
      | (_, s') \<Rightarrow> s')"

fun process_files :: "env \<Rightarrow> bool \<Rightarrow> string list \<Rightarrow> state \<Rightarrow> state" where
  "process_files env dry_run [] s = s"
| "process_files env dry_run (name # files) s =
     process_files env dry_run files (process_file env dry_run name s)"

text \<open>\<^verbatim>\<open>_print_summary\<close>: the error line is printed only when errors were counted.\<close>

definition print_summary :: "bool \<Rightarrow> stats \<Rightarrow> event list" where
  "print_summary dry_run st =
     [SummaryHeader,
      if dry_run then WouldBeOrganized (moved st) else OrganizedSuccessfully (moved st)]
     @ (if errors st > 0 then [ErrorsOccurred (errors st)] else [])"

text \<open>
  The organizer object: \<^verbatim>\<open>__init__\<close> stores the mode and sets the three counters to
  zero. The source directory is the root of the modelled tree.
\<close>

record organizer =
  dry_run :: bool
  self_stats :: stats

definition FileOrganizer :: "bool \<Rightarrow> organizer" where
  "FileOrganizer dr = \<lparr>dry_run = dr, self_stats = \<lparr>moved = 0, skipped = 0, errors = 0\<rparr>\<rparr>"

text \<open>
  What a call of \<^verbatim>\<open>organize\<close> leaves behind: the exception that left the call, if any,
  the counters of the object, what lies at the source path, the printed lines and the
  file-system calls.
\<close>

record run =
  raised :: "error option"
  final_stats :: stats
  final_fs :: "node option"
  printed :: "event list"
  fs_calls :: "fs_call list"

definition header :: "bool \<Rightarrow> event list" where
  "header dr = [Banner] @ (if dr then [DryRunNotice] else []) @ [Scanning]"

text \<open>
  The comprehension \<^verbatim>\<open>[f for f in self.source_dir.iterdir() if f.is_file()]\<close> of line 79
  on an existing directory, once it is listed: \<^verbatim>\<open>is_file\<close> is called on the entries in
  turn, the regular files are kept, and the first call that raises ends the comprehension.
  The result comes with the calls made.
\<close>

fun is_file_checks :: "env \<Rightarrow> entries \<Rightarrow> fs_call list \<times> (error + string list)" where
  "is_file_checks env [] = ([], Inr [])"
| "is_file_checks env ((name, n) # es) =
     (case is_file_error env name of
        Some e \<Rightarrow> ([IsFile name], Inl e)
      | None \<Rightarrow>
          (case is_file_checks env es of
             (cs, Inl e) \<Rightarrow> (IsFile name # cs, Inl e)
           | (cs, Inr files) \<Rightarrow>
               (IsFile name # cs, Inr (if is_file n then name # files else files))))"

definition listing :: "env \<Rightarrow> entries \<Rightarrow> fs_call list \<times> (error + string list)" where
  "listing env es =
     (case iterdir_error env of
        Some e \<Rightarrow> ([Iterdir], Inl e)
      | None \<Rightarrow> (case is_file_checks env es of (cs, r) \<Rightarrow> (Iterdir # cs, r)))"

text \<open>
  \<^verbatim>\<open>organize\<close>. Line 79 is outside the \<^verbatim>\<open>try\<close> statement: \<^verbatim>\<open>iterdir\<close> raises when the
  source path is missing or is no directory, the listing or an \<^verbatim>\<open>is_file\<close> call can
  raise on a directory that is there, and nothing catches it. An empty list of files
  returns before the loop and before the summary.
\<close>

definition organize :: "env \<Rightarrow> organizer \<Rightarrow> node option \<Rightarrow> run" where
  "organize env self src =
     (case src of
        None \<Rightarrow>
          \<lparr>raised = Some FileNotFoundError, final_stats = self_stats self, final_fs = src,
           printed = header (dry_run self), fs_calls = [Iterdir]\<rparr>
      | Some (File c) \<Rightarrow>
          \<lparr>raised = Some NotADirectoryError, final_stats = self_stats self, final_fs = src,
           printed = header (dry_run self), fs_calls = [Iterdir]\<rparr>
      | Some (Dir es) \<Rightarrow>
          (case listing env es of
             (cs, Inl e) \<Rightarrow>
               \<lparr>raised = Some e, final_stats = self_stats self, final_fs = src,
                printed = header (dry_run self), fs_calls = cs\<rparr>
           | (cs, Inr files) \<Rightarrow>
               (let s0 = \<lparr>root = es, stats = self_stats self, out = header (dry_run self),
                         calls = cs\<rparr>
                in if files = [] then
                     \<lparr>raised = None, final_stats = stats s0, final_fs = Some (Dir (root s0)),
                      printed = out s0 @ [NoFilesFound], fs_calls = calls s0\<rparr>
                   else
                     (let s1 = process_files env (dry_run self) files
                                 (write_line (Found (length files)) s0)
                      in \<lparr>raised = None, final_stats = stats s1,
                          final_fs = Some (Dir (root s1)),
                          printed = out s1 @ print_summary (dry_run self) (stats s1),
                          fs_calls = calls s1\<rparr>))))"

subsection \<open>Notions used to state the properties\<close>

text \<open>The regular files among the entries, in listing order.\<close>

definition scan :: "entries \<Rightarrow> string list" where
  "scan es = map fst (filter (\<lambda>(name, n). is_file n) es)"

text \<open>The exception that ends the scan of an existing directory, if there is one.\<close>

definition scan_error :: "env \<Rightarrow> entries \<Rightarrow> error option" where
  "scan_error env es = (case snd (listing env es) of Inl e \<Rightarrow> Some e | Inr files \<Rightarrow> None)"

text \<open>The calls that change the file system.\<close>

definition mutating :: "fs_call \<Rightarrow> bool" where
  "mutating c = (case c of Mkdir d \<Rightarrow> True | Move n d x \<Rightarrow> True | _ \<Rightarrow> False)"

text \<open>
  The calls made for one file: the creation of its folder, an existence check of a
  destination, the move.
\<close>

definition per_file_call :: "fs_call \<Rightarrow> bool" where
  "per_file_call c =
     (case c of Mkdir d \<Rightarrow> True | Exists d x \<Rightarrow> True | Move n d x \<Rightarrow> True | _ \<Rightarrow> False)"



section \<open>Termination of the conflict loop\<close>

lemma string_of_nat_bound: "n < 10 ^ length (string_of_nat n)"
proof (induction n rule: string_of_nat.induct)
  case (1 n)
  show ?case
  proof (cases "n < 10")
    case True
    then show ?thesis by (subst string_of_nat.simps) simp
  next
    case False
    with 1 have "n div 10 < 10 ^ length (string_of_nat (n div 10))" by simp
    then have "n < 10 * 10 ^ length (string_of_nat (n div 10))" by linarith
    with False show ?thesis by (subst string_of_nat.simps) simp
  qed
qed

lemma exists_key: "exists r d name \<Longrightarrow> name \<in> fst ` set (dir_entries r d)"
  by (auto simp: exists_def dest: map_of_SomeD intro: rev_image_eqI)

lemma key_length_bound:
  assumes "name \<in> fst ` set es"
  shows "10 ^ length name \<le> name_bound es"
proof -
  from assms have "length name \<in> set (map (length \<circ> fst) es)" by auto
  then have "length name \<le> sum_list (map (length \<circ> fst) es)"
    by (rule member_le_sum_list) simp_all
  then show ?thesis unfolding name_bound_def by (simp add: power_increasing)
qed

lemma exists_candidate_bound:
  assumes "exists r d (candidate base ext counter)"
  shows "counter < name_bound (dir_entries r d)"
proof -
  have "counter < 10 ^ length (string_of_nat counter)" by (rule string_of_nat_bound)
  also have "\<dots> \<le> 10 ^ length (candidate base ext counter)"
    by (rule power_increasing) (simp_all add: candidate_def)
  also have "\<dots> \<le> name_bound (dir_entries r d)"
    using assms by (intro key_length_bound exists_key)
  finally show ?thesis .
qed

termination while_exists
proof (relation "measure (\<lambda>(r, d, base, ext, destination, counter, cs).
         (if exists r d destination then 1 else 0)
         + 2 * (name_bound (dir_entries r d) + 1 - counter))")
  show "wf (measure (\<lambda>(r, d, base, ext, destination, counter, cs).
         (if exists r d destination then 1 else 0)
         + 2 * (name_bound (dir_entries r d) + 1 - counter)))"
    by simp
next
  fix r d base ext destination counter cs
  assume "exists r d destination"
  then show "((r, d, base, ext, candidate base ext counter, Suc counter,
                 cs @ [Exists d destination]),
              (r, d, base, ext, destination, counter, cs))
             \<in> measure (\<lambda>(r, d, base, ext, destination, counter, cs).
                 (if exists r d destination then 1 else 0)
                 + 2 * (name_bound (dir_entries r d) + 1 - counter))"
    using exists_candidate_bound[of r d base ext counter] by auto
qed

text \<open>The equation of the loop unfolds itself, so it is used only where asked for.\<close>

declare while_exists.simps [simp del]

section \<open>The classifier\<close>






section \<open>The file-system calls\<close>

lemma exists_iff: "exists r d name \<longleftrightarrow> map_of (dir_entries r d) name \<noteq> None"
  by (simp add: exists_def)

lemma mkdir_Inr_lookup:
  assumes "mkdir d r = Inr r2"
  shows "map_of r2 k = (if k = d then Some (Dir (dir_entries r d)) else map_of r k)"
  using assms
  by (auto simp: mkdir_def dir_entries_def update_conv' split: option.splits node.splits)

lemma mkdir_Inr_distinct:
  assumes "mkdir d r = Inr r2" "distinct (map fst r)"
  shows "distinct (map fst r2)"
  using assms by (auto simp: mkdir_def distinct_update split: option.splits node.splits)

lemma mkdir_Inl_iff: "(\<exists>e. mkdir d r = Inl e) \<longleftrightarrow> (\<exists>c. map_of r d = Some (File c))"
  by (auto simp: mkdir_def split: option.splits node.splits)

lemma move_free_Inr_iff:
  assumes "\<not> exists r d dest"
  shows "(\<exists>r4. move name d dest r = Inr r4)
     \<longleftrightarrow> map_of r name \<noteq> None \<and> name \<noteq> d \<and> (\<exists>es. map_of r d = Some (Dir es))"
  using assms
  by (auto simp: move_def exists_def dir_entries_def split: option.splits node.splits)

lemma move_free_lookup:
  assumes "move name d dest r = Inr r4" "\<not> exists r d dest"
  shows "map_of r4 k =
     (if k = d then Some (Dir (AList.update dest (the (map_of r name)) (dir_entries r d)))
      else if k = name then None else map_of r k)"
  using assms
  by (auto simp: move_def exists_def dir_entries_def update_conv' delete_conv'
      split: option.splits node.splits if_splits)

lemma move_Inr_distinct:
  assumes "move name d dest r = Inr r4" "distinct (map fst r)"
  shows "distinct (map fst r4)"
  using assms
  by (auto simp: move_def distinct_update distinct_delete
      split: option.splits node.splits if_splits)

section \<open>The conflict loop finds the first free name\<close>

lemma while_exists_spec:
  assumes "exists r d destination"
  shows "\<exists>n\<ge>counter.
           while_exists r d base ext (destination, counter, cs)
             = (candidate base ext n, Suc n,
                cs @ Exists d destination
                     # map (\<lambda>k. Exists d (candidate base ext k)) [counter..<Suc n])
           \<and> \<not> exists r d (candidate base ext n)
           \<and> (\<forall>k. counter \<le> k \<and> k < n \<longrightarrow> exists r d (candidate base ext k))"
  using assms
proof (induction r d base ext "(destination, counter, cs)" arbitrary: destination counter cs
    rule: while_exists.induct)
  case (1 r d base ext destination counter cs)
  have unfold: "while_exists r d base ext (destination, counter, cs)
      = while_exists r d base ext
          (candidate base ext counter, Suc counter, cs @ [Exists d destination])"
    using "1.prems" by (simp add: while_exists.simps [of r d base ext destination])
  show ?case
  proof (cases "exists r d (candidate base ext counter)")
    case False
    then have "while_exists r d base ext (destination, counter, cs)
        = (candidate base ext counter, Suc counter,
           cs @ Exists d destination
                # map (\<lambda>k. Exists d (candidate base ext k)) [counter..<Suc counter])"
      unfolding unfold by (simp add: while_exists.simps [of r d base ext "candidate base ext counter"])
    with False show ?thesis by (intro exI [of _ counter]) auto
  next
    case True
    from "1.hyps" [OF "1.prems" True]
    obtain n where n: "Suc counter \<le> n"
      "while_exists r d base ext
          (candidate base ext counter, Suc counter, cs @ [Exists d destination])
        = (candidate base ext n, Suc n,
           (cs @ [Exists d destination]) @ Exists d (candidate base ext counter)
             # map (\<lambda>k. Exists d (candidate base ext k)) [Suc counter..<Suc n])"
      "\<not> exists r d (candidate base ext n)"
      "\<forall>k. Suc counter \<le> k \<and> k < n \<longrightarrow> exists r d (candidate base ext k)"
      by blast
    have upt: "[counter..<Suc n] = counter # [Suc counter..<Suc n]"
      using n(1) by (simp add: upt_conv_Cons)
    have all: "\<forall>k. counter \<le> k \<and> k < n \<longrightarrow> exists r d (candidate base ext k)"
    proof (intro allI impI)
      fix k assume k: "counter \<le> k \<and> k < n"
      show "exists r d (candidate base ext k)"
      proof (cases "k = counter")
        case True
        with \<open>exists r d (candidate base ext counter)\<close> show ?thesis by simp
      next
        case False
        with k n(4) show ?thesis by simp
      qed
    qed
    have "counter \<le> n" using n(1) by simp
    moreover have "while_exists r d base ext (destination, counter, cs)
        = (candidate base ext n, Suc n,
           cs @ Exists d destination
                # map (\<lambda>k. Exists d (candidate base ext k)) [counter..<Suc n])"
      unfolding unfold n(2) upt by simp
    ultimately show ?thesis using n(3) all by blast
  qed
qed

lemma handle_conflict_state:
  assumes "handle_conflict category name s = (dest, s')"
  shows "root s' = root s" and "stats s' = stats s" and "out s' = out s"
proof -
  have "root s' = root s \<and> stats s' = stats s \<and> out s' = out s"
  proof (cases "exists (root s) category name")
    case True
    obtain d c cs where w: "while_exists (root s) category (stem name) (suffix name)
        (name, 1, calls s @ [Exists category name]) = (d, c, cs)"
      using prod_cases3 by blast
    with True assms show ?thesis by (auto simp: handle_conflict_def)
  next
    case False
    with assms show ?thesis by (auto simp: handle_conflict_def call_def)
  qed
  then show "root s' = root s" and "stats s' = stats s" and "out s' = out s" by simp_all
qed

lemma handle_conflict_free:
  assumes "handle_conflict category name s = (destination, s')"
  shows "\<not> exists (root s) category destination"
proof (cases "exists (root s) category name")
  case True
  from while_exists_spec [OF True, of 1 "stem name" "suffix name" "calls s @ [Exists category name]"]
  obtain n where "while_exists (root s) category (stem name) (suffix name)
        (name, 1, calls s @ [Exists category name])
      = (candidate (stem name) (suffix name) n, Suc n,
         (calls s @ [Exists category name]) @ Exists category name
           # map (\<lambda>k. Exists category (candidate (stem name) (suffix name) k)) [1..<Suc n])"
    "\<not> exists (root s) category (candidate (stem name) (suffix name) n)"
    by blast
  with True assms show ?thesis by (auto simp: handle_conflict_def)
next
  case False
  with assms show ?thesis by (auto simp: handle_conflict_def)
qed

lemma handle_conflict_spec:
  assumes "handle_conflict category name s = (destination, s')"
  shows "(if exists (root s) category name
          then \<exists>n\<ge>1. destination = candidate (stem name) (suffix name) n
                 \<and> (\<forall>k. 1 \<le> k \<and> k < n
                        \<longrightarrow> exists (root s) category (candidate (stem name) (suffix name) k))
                 \<and> calls s' = calls s @ [Exists category name, Exists category name]
                      @ map (\<lambda>k. Exists category (candidate (stem name) (suffix name) k))
                          [1..<Suc n]
          else destination = name \<and> calls s' = calls s @ [Exists category name])"
proof (cases "exists (root s) category name")
  case True
  from while_exists_spec [OF True, of 1 "stem name" "suffix name" "calls s @ [Exists category name]"]
  obtain n where n: "1 \<le> n" "while_exists (root s) category (stem name) (suffix name)
        (name, 1, calls s @ [Exists category name])
      = (candidate (stem name) (suffix name) n, Suc n,
         (calls s @ [Exists category name]) @ Exists category name
           # map (\<lambda>k. Exists category (candidate (stem name) (suffix name) k)) [1..<Suc n])"
    "\<forall>k. 1 \<le> k \<and> k < n
       \<longrightarrow> exists (root s) category (candidate (stem name) (suffix name) k)"
    by blast
  from True assms n(2) have "destination = candidate (stem name) (suffix name) n"
    and "calls s' = calls s @ [Exists category name, Exists category name]
                      @ map (\<lambda>k. Exists category (candidate (stem name) (suffix name) k))
                          [1..<Suc n]"
    by (auto simp: handle_conflict_def)
  with True n(1) n(3) show ?thesis by auto
next
  case False
  with assms show ?thesis by (auto simp: handle_conflict_def call_def)
qed

section \<open>One turn of the loop\<close>

lemmas step_defs = write_line_def call_def bump_moved_def bump_errors_def

lemma call_fields:
  "root (call c s) = root s" "stats (call c s) = stats s" "out (call c s) = out s"
  by (simp_all add: call_def)

lemma write_line_fields:
  "root (write_line e s) = root s" "stats (write_line e s) = stats s"
  "calls (write_line e s) = calls s"
  by (simp_all add: write_line_def)

lemma print_name:
  "print env (FileLine name category) s =
     (if encodable env name then Inr (write_line (FileLine name category) s)
      else Inl UnicodeEncodeError)"
  "print env (RenamedTo name) s =
     (if encodable env name then Inr (write_line (RenamedTo name) s)
      else Inl UnicodeEncodeError)"
  by (simp_all add: print_def encodes_def)

text \<open>
  The ways through the body of the \<^verbatim>\<open>try\<close> statement, with what each leaves of the
  directory and of the counters.
\<close>

lemma try_body_cases [case_names skip print_fail dry mkdir_fail rename_fail move_fail moved]:
  obtains
    "name = script_name" "try_body env dr name s = (Continue, s)"
  | "name \<noteq> script_name" "\<not> encodable env name"
      "try_body env dr name s = (Raised UnicodeEncodeError, s)"
  | "name \<noteq> script_name" "encodable env name" "dr"
      "try_body env dr name s
         = (Completed, bump_moved (write_line (FileLine name (get_category name)) s))"
  | e where "name \<noteq> script_name" "encodable env name" "\<not> dr"
      "mkdir (get_category name) (root s) = Inl e"
      "try_body env dr name s
         = (Raised e,
            call (Mkdir (get_category name)) (write_line (FileLine name (get_category name)) s))"
  | r2 s3 where "name \<noteq> script_name" "encodable env name" "\<not> dr"
      "mkdir (get_category name) (root s) = Inr r2"
      "root s3 = r2" "stats s3 = stats s"
      "try_body env dr name s = (Raised UnicodeEncodeError, s3)"
  | r2 dest s4 e where "name \<noteq> script_name" "encodable env name" "\<not> dr"
      "mkdir (get_category name) (root s) = Inr r2"
      "\<not> exists r2 (get_category name) dest"
      "root s4 = r2" "stats s4 = stats s"
      "move name (get_category name) dest r2 = Inl e"
      "try_body env dr name s = (Raised e, call (Move name (get_category name) dest) s4)"
  | r2 dest s4 r4 where "name \<noteq> script_name" "encodable env name" "\<not> dr"
      "mkdir (get_category name) (root s) = Inr r2"
      "\<not> exists r2 (get_category name) dest"
      "root s4 = r2" "stats s4 = stats s"
      "move name (get_category name) dest r2 = Inr r4"
      "try_body env dr name s
         = (Completed, bump_moved (call (Move name (get_category name) dest) (s4\<lparr>root := r4\<rparr>)))"
proof (cases "name = script_name")
  case True
  then show ?thesis using that(1) by (simp add: try_body_def)
next
  case ns: False
  let ?c = "get_category name"
  let ?s1 = "write_line (FileLine name ?c) s"
  show ?thesis
  proof (cases "encodable env name")
    case False
    then show ?thesis using ns that(2) by (simp add: try_body_def Let_def print_name)
  next
    case en: True
    show ?thesis
    proof (cases dr)
      case True
      then show ?thesis using ns en that(3) by (simp add: try_body_def Let_def print_name)
    next
      case nd: False
      show ?thesis
      proof (cases "mkdir ?c (root s)")
        case (Inl e)
        then show ?thesis using ns en nd that(4) [of e]
          by (simp add: try_body_def Let_def print_name write_line_fields)
      next
        case (Inr r2)
        let ?s2 = "call (Mkdir ?c) (?s1\<lparr>root := r2\<rparr>)"
        have s2: "root ?s2 = r2" "stats ?s2 = stats s"
          by (simp_all add: call_fields write_line_fields)
        obtain dest s3 where hc: "handle_conflict ?c name ?s2 = (dest, s3)"
          by (cases "handle_conflict ?c name ?s2") blast
        have s3: "root s3 = r2" "stats s3 = stats s"
          using handle_conflict_state(1,2) [OF hc] s2 by simp_all
        have free: "\<not> exists r2 ?c dest"
          using handle_conflict_free [OF hc] s2 by simp
        have body: "try_body env dr name s =
          (case (if exists r2 ?c name then print env (RenamedTo dest) s3 else Inr s3) of
             Inl e \<Rightarrow> (Raised e, s3)
           | Inr s4 \<Rightarrow>
               (case move name ?c dest (root s4) of
                  Inl e \<Rightarrow> (Raised e, call (Move name ?c dest) s4)
                | Inr r4 \<Rightarrow>
                    (Completed, bump_moved (call (Move name ?c dest) (s4\<lparr>root := r4\<rparr>)))))"
          using ns en nd Inr hc s2(1)
          by (simp add: try_body_def Let_def print_name write_line_fields)
        show ?thesis
        proof (cases "exists r2 ?c name \<and> \<not> encodable env dest")
          case True
          then have "try_body env dr name s = (Raised UnicodeEncodeError, s3)"
            unfolding body by (simp add: print_name)
          then show ?thesis using that(5) [of r2 s3] ns en nd Inr s3 by blast
        next
          case False
          define s4 where "s4 = (if exists r2 ?c name then write_line (RenamedTo dest) s3 else s3)"
          have pr: "(if exists r2 ?c name then print env (RenamedTo dest) s3 else Inr s3) = Inr s4"
            using False by (auto simp: s4_def print_name)
          have s4: "root s4 = r2" "stats s4 = stats s"
            using s3 by (simp_all add: s4_def write_line_fields)
          show ?thesis
          proof (cases "move name ?c dest r2")
            case (Inl e)
            then have "try_body env dr name s = (Raised e, call (Move name ?c dest) s4)"
              unfolding body pr by (simp add: s4(1))
            then show ?thesis using that(6) [of r2 dest s4 e] ns en nd Inr free s4 Inl by blast
          next
            case mv: (Inr r4)
            then have "try_body env dr name s
              = (Completed, bump_moved (call (Move name ?c dest) (s4\<lparr>root := r4\<rparr>)))"
              unfolding body pr by (simp add: s4(1))
            then show ?thesis using that(7) [of r2 dest s4 r4] ns en nd Inr free s4 mv by blast
          qed
        qed
      qed
    qed
  qed
qed

text \<open>How one turn of the loop changes the counters.\<close>

lemma process_file_stats:
  "stats (process_file env dr name s) =
     (case fst (try_body env dr name s) of
        Completed \<Rightarrow> (stats s)\<lparr>moved := moved (stats s) + 1\<rparr>
      | Continue \<Rightarrow> stats s
      | Raised e \<Rightarrow> (stats s)\<lparr>errors := errors (stats s) + 1\<rparr>)"
proof (cases env dr name s rule: try_body_cases)
  case skip
  then show ?thesis by (simp add: process_file_def)
next
  case print_fail
  then show ?thesis by (simp add: process_file_def step_defs)
next
  case dry
  then show ?thesis by (simp add: process_file_def step_defs)
next
  case (mkdir_fail e)
  then show ?thesis by (simp add: process_file_def step_defs)
next
  case (rename_fail r2 s3)
  then show ?thesis by (simp add: process_file_def step_defs)
next
  case (move_fail r2 dest s4 e)
  then show ?thesis by (simp add: process_file_def step_defs)
next
  case (moved r2 dest s4 r4)
  then show ?thesis by (simp add: process_file_def step_defs)
qed

lemma try_body_outcome:
  "fst (try_body env True name s) =
     (if name = script_name then Continue
      else if encodable env name then Completed else Raised UnicodeEncodeError)"
  by (simp add: try_body_def Let_def print_name)

lemma try_body_Continue: "fst (try_body env dr name s) = Continue \<longleftrightarrow> name = script_name"
  by (cases env dr name s rule: try_body_cases) simp_all

lemma process_file_skipped:
  "skipped (stats (process_file env dr name s)) = skipped (stats s)"
  by (simp add: process_file_stats split: outcome.splits)

lemma process_files_skipped:
  "skipped (stats (process_files env dr files s)) = skipped (stats s)"
  by (induction files arbitrary: s) (simp_all add: process_file_skipped)

lemma process_file_total:
  "moved (stats (process_file env dr name s)) + errors (stats (process_file env dr name s))
     = moved (stats s) + errors (stats s) + (if name = script_name then 0 else 1)"
  by (cases env dr name s rule: try_body_cases) (simp_all add: process_file_stats)

lemma process_files_total:
  "moved (stats (process_files env dr files s))
     + errors (stats (process_files env dr files s))
     = moved (stats s) + errors (stats s) + length (filter (\<lambda>f. f \<noteq> script_name) files)"
  by (induction files arbitrary: s) (simp_all add: process_file_total)



text \<open>One turn of a dry run.\<close>

lemma process_file_dry:
  "process_file env True name s =
     (if name = script_name then s
      else if encodable env name
      then bump_moved (write_line (FileLine name (get_category name)) s)
      else bump_errors (write_line (ErrorLine UnicodeEncodeError) s))"
  by (simp add: process_file_def try_body_def Let_def print_name)

lemma process_files_dry:
  "root (process_files env True files s) = root s
   \<and> calls (process_files env True files s) = calls s
   \<and> errors (stats (process_files env True files s))
       = errors (stats s) + length (filter (\<lambda>f. f \<noteq> script_name \<and> \<not> encodable env f) files)
   \<and> moved (stats (process_files env True files s))
       = moved (stats s) + length (filter (\<lambda>f. f \<noteq> script_name \<and> encodable env f) files)"
  by (induction files arbitrary: s) (simp_all add: process_file_dry step_defs)

lemma process_file_errors_mono:
  "errors (stats s) \<le> errors (stats (process_file env dr name s))"
  by (simp add: process_file_stats split: outcome.splits)

lemma process_files_errors_mono:
  "errors (stats s) \<le> errors (stats (process_files env dr files s))"
proof (induction files arbitrary: s)
  case Nil
  show ?case by simp
next
  case (Cons f files)
  have "errors (stats s) \<le> errors (stats (process_file env dr f s))"
    by (rule process_file_errors_mono)
  also have "\<dots> \<le> errors (stats (process_files env dr files (process_file env dr f s)))"
    by (rule Cons.IH)
  finally show ?case by simp
qed

section \<open>The directory under one turn in commit mode\<close>

text \<open>What one turn in commit mode does to the directory and to the error counter.\<close>

lemma commit_step_cases [case_names skip fail_early fail_late moved]:
  obtains
    "name = script_name" "process_file env False name s = s"
  | "name \<noteq> script_name"
      "root (process_file env False name s) = root s"
      "errors (stats (process_file env False name s)) = errors (stats s) + 1"
  | r2 where "name \<noteq> script_name" "mkdir (get_category name) (root s) = Inr r2"
      "root (process_file env False name s) = r2"
      "errors (stats (process_file env False name s)) = errors (stats s) + 1"
  | r2 dest r4 where "name \<noteq> script_name" "mkdir (get_category name) (root s) = Inr r2"
      "\<not> exists r2 (get_category name) dest"
      "move name (get_category name) dest r2 = Inr r4"
      "root (process_file env False name s) = r4"
      "errors (stats (process_file env False name s)) = errors (stats s)"
proof (cases env False name s rule: try_body_cases)
  case skip
  then show ?thesis using that(1) by (simp add: process_file_def)
next
  case print_fail
  have "root (process_file env False name s) = root s"
    using print_fail(3) by (simp add: process_file_def step_defs)
  moreover have "errors (stats (process_file env False name s)) = errors (stats s) + 1"
    using print_fail(3) by (simp add: process_file_stats)
  ultimately show ?thesis using that(2) print_fail(1) by blast
next
  case dry
  then show ?thesis by simp
next
  case (mkdir_fail e)
  have "root (process_file env False name s) = root s"
    using mkdir_fail(5) by (simp add: process_file_def step_defs)
  moreover have "errors (stats (process_file env False name s)) = errors (stats s) + 1"
    using mkdir_fail(5) by (simp add: process_file_stats)
  ultimately show ?thesis using that(2) mkdir_fail(1) by blast
next
  case (rename_fail r2 s3)
  have "root (process_file env False name s) = r2"
    using rename_fail(7,5) by (simp add: process_file_def step_defs)
  moreover have "errors (stats (process_file env False name s)) = errors (stats s) + 1"
    using rename_fail(7) by (simp add: process_file_stats)
  ultimately show ?thesis using that(3) rename_fail(1,4) by blast
next
  case (move_fail r2 dest s4 e)
  have "root (process_file env False name s) = r2"
    using move_fail(9,6) by (simp add: process_file_def step_defs)
  moreover have "errors (stats (process_file env False name s)) = errors (stats s) + 1"
    using move_fail(9) by (simp add: process_file_stats)
  ultimately show ?thesis using that(3) move_fail(1,4) by blast
next
  case (moved r2 dest s4 r4)
  have "root (process_file env False name s) = r4"
    using moved(9) by (simp add: process_file_def step_defs)
  moreover have "errors (stats (process_file env False name s)) = errors (stats s)"
    using moved(9) by (simp add: process_file_stats)
  ultimately show ?thesis using that(4) moved(1,4,5,8) by blast
qed

lemma mkdir_dir_entries:
  assumes "mkdir d r = Inr r2"
  shows "dir_entries r2 k = dir_entries r k"
  using mkdir_Inr_lookup [OF assms, of k] by (simp add: dir_entries_def)

lemma move_free_dir_entries:
  assumes "move name d dest r = Inr r4" "\<not> exists r d dest" "k \<noteq> name"
  shows "map_of (dir_entries r k) x = Some nd \<Longrightarrow> map_of (dir_entries r4 k) x = Some nd"
proof -
  assume a: "map_of (dir_entries r k) x = Some nd"
  show ?thesis
  proof (cases "k = d")
    case True
    have "x \<noteq> dest" using a assms(2) True by (auto simp: exists_def)
    moreover have "dir_entries r4 d = AList.update dest (the (map_of r name)) (dir_entries r d)"
      using move_free_lookup [OF assms(1,2), of d] by (simp add: dir_entries_def)
    ultimately show ?thesis using a True by (simp add: update_conv')
  next
    case False
    then have "dir_entries r4 k = dir_entries r k"
      using move_free_lookup [OF assms(1,2), of k] assms(3) by (simp add: dir_entries_def)
    with a show ?thesis by simp
  qed
qed

lemma commit_step_keeps_entries:
  assumes "map_of (dir_entries (root s) d) x = Some nd" "d \<noteq> name"
  shows "map_of (dir_entries (root (process_file env False name s)) d) x = Some nd"
proof (cases env name s rule: commit_step_cases)
  case skip
  with assms show ?thesis by simp
next
  case fail_early
  with assms show ?thesis by simp
next
  case (fail_late r2)
  with assms show ?thesis by (simp add: mkdir_dir_entries)
next
  case (moved r2 dest r4)
  have "map_of (dir_entries r2 d) x = Some nd"
    using assms(1) moved(2) by (simp add: mkdir_dir_entries)
  from move_free_dir_entries [OF moved(4) moved(3) assms(2) this] moved(5)
  show ?thesis by simp
qed

lemma commit_step_files_shrink:
  assumes "map_of (root (process_file env False name s)) k = Some (File c)"
  shows "map_of (root s) k = Some (File c)"
proof (cases env name s rule: commit_step_cases)
  case skip
  with assms show ?thesis by simp
next
  case fail_early
  with assms show ?thesis by simp
next
  case (fail_late r2)
  with assms mkdir_Inr_lookup [OF fail_late(2), of k] show ?thesis
    by (simp split: if_splits)
next
  case (moved r2 dest r4)
  with assms move_free_lookup [OF moved(4) moved(3), of k]
    mkdir_Inr_lookup [OF moved(2), of k] show ?thesis
    by (simp split: if_splits)
qed

lemma commit_step_other_files:
  assumes "map_of (root s) k = Some (File c)" "k \<noteq> name"
  shows "map_of (root (process_file env False name s)) k = Some (File c)"
proof (cases env name s rule: commit_step_cases)
  case skip
  with assms show ?thesis by simp
next
  case fail_early
  with assms show ?thesis by simp
next
  case (fail_late r2)
  with assms mkdir_Inr_lookup [OF fail_late(2), of k]
    mkdir_Inl_iff [of "get_category name" "root s"]
  show ?thesis by (auto split: if_splits)
next
  case (moved r2 dest r4)
  have kd: "k \<noteq> get_category name"
    using assms(1) moved(2) mkdir_Inl_iff [of "get_category name" "root s"] by auto
  with assms move_free_lookup [OF moved(4) moved(3), of k]
    mkdir_Inr_lookup [OF moved(2), of k] moved(5) show ?thesis
    by simp
qed

lemma commit_step_removes:
  assumes "name \<noteq> script_name"
    "errors (stats (process_file env False name s)) = errors (stats s)"
  shows "\<nexists>c. map_of (root (process_file env False name s)) name = Some (File c)"
proof (cases env name s rule: commit_step_cases)
  case skip
  with assms show ?thesis by simp
next
  case fail_early
  with assms show ?thesis by simp
next
  case (fail_late r2)
  with assms show ?thesis by simp
next
  case (moved r2 dest r4)
  have "name \<noteq> get_category name"
    using move_free_Inr_iff [OF moved(3), of name] moved(4) by auto
  with move_free_lookup [OF moved(4) moved(3), of name] moved(5) show ?thesis by simp
qed

lemma commit_step_distinct:
  assumes "distinct (map fst (root s))"
  shows "distinct (map fst (root (process_file env False name s)))"
proof (cases env name s rule: commit_step_cases)
  case skip
  with assms show ?thesis by simp
next
  case fail_early
  with assms show ?thesis by simp
next
  case (fail_late r2)
  with assms mkdir_Inr_distinct [OF fail_late(2)] show ?thesis by simp
next
  case (moved r2 dest r4)
  with assms mkdir_Inr_distinct [OF moved(2)] move_Inr_distinct [OF moved(4)]
  show ?thesis by simp
qed

section \<open>The scan\<close>

lemma is_file_checks_ok:
  assumes "snd (is_file_checks env es) = Inr files"
  shows "files = scan es \<and> fst (is_file_checks env es) = map (IsFile \<circ> fst) es"
  using assms
proof (induction es arbitrary: files)
  case Nil
  then show ?case by (simp add: scan_def)
next
  case (Cons a es)
  obtain name n where a: "a = (name, n)" by (cases a)
  obtain cs r where c: "is_file_checks env es = (cs, r)" by (cases "is_file_checks env es")
  from Cons.prems a c have ne: "is_file_error env name = None"
    by (auto split: option.splits)
  from Cons.prems a c ne obtain fs where r: "r = Inr fs"
    by (cases r) auto
  from Cons.IH [of fs] c r have ih: "fs = scan es" "cs = map (IsFile \<circ> fst) es" by simp_all
  from Cons.prems a c ne r ih show ?case by (auto simp: scan_def)
qed

lemma no_mutation_in_checks: "filter mutating (fst (is_file_checks env es)) = []"
proof (induction es)
  case Nil
  show ?case by simp
next
  case (Cons a es)
  obtain name n where a: "a = (name, n)" by (cases a)
  obtain cs r where c: "is_file_checks env es = (cs, r)" by (cases "is_file_checks env es")
  from Cons.IH c have "filter mutating cs = []" by simp
  moreover have "\<not> mutating (IsFile name)" by (simp add: mutating_def)
  ultimately show ?case using a c by (auto split: option.splits sum.splits)
qed

lemma listing_cases [case_names raises lists]:
  obtains cs e where "listing env es = (cs, Inl e)" "filter mutating cs = []"
      "scan_error env es = Some e"
  | "listing env es = (Iterdir # map (IsFile \<circ> fst) es, Inr (scan es))"
      "scan_error env es = None"
proof (cases "iterdir_error env")
  case (Some e)
  then have "listing env es = ([Iterdir], Inl e)" by (simp add: listing_def)
  then show ?thesis using that(1) [of "[Iterdir]" e]
    by (simp add: scan_error_def mutating_def)
next
  case None
  obtain cs r where c: "is_file_checks env es = (cs, r)" by (cases "is_file_checks env es")
  with None have l: "listing env es = (Iterdir # cs, r)" by (simp add: listing_def)
  have m: "filter mutating (Iterdir # cs) = []"
    using no_mutation_in_checks [of env es] c by (simp add: mutating_def)
  show ?thesis
  proof (cases r)
    case (Inl e)
    with l m show ?thesis using that(1) [of "Iterdir # cs" e] by (simp add: scan_error_def)
  next
    case (Inr files)
    with c is_file_checks_ok [of env es files]
    have "files = scan es" "cs = map (IsFile \<circ> fst) es" by simp_all
    with l Inr show ?thesis using that(2) by (simp add: scan_error_def)
  qed
qed

lemma organize_raises:
  assumes "listing env es = (cs, Inl e)"
  shows "organize env self (Some (Dir es)) =
     \<lparr>raised = Some e, final_stats = self_stats self, final_fs = Some (Dir es),
      printed = header (dry_run self), fs_calls = cs\<rparr>"
  using assms by (simp add: organize_def)

lemma organize_Dir:
  assumes "scan_error env es = None"
  shows "organize env self (Some (Dir es)) =
     (if scan es = [] then
        \<lparr>raised = None, final_stats = self_stats self, final_fs = Some (Dir es),
         printed = header (dry_run self) @ [NoFilesFound],
         fs_calls = Iterdir # map (IsFile \<circ> fst) es\<rparr>
      else
        (let s1 = process_files env (dry_run self) (scan es)
                    \<lparr>root = es, stats = self_stats self,
                     out = header (dry_run self) @ [Found (length (scan es))],
                     calls = Iterdir # map (IsFile \<circ> fst) es\<rparr>
         in \<lparr>raised = None, final_stats = stats s1, final_fs = Some (Dir (root s1)),
             printed = out s1 @ print_summary (dry_run self) (stats s1),
             fs_calls = calls s1\<rparr>))"
proof (cases env es rule: listing_cases)
  case (raises cs e)
  with assms show ?thesis by simp
next
  case lists
  then show ?thesis by (simp add: organize_def Let_def write_line_def)
qed

lemma organize_raised: "raised (organize env self (Some (Dir es))) = scan_error env es"
proof (cases env es rule: listing_cases)
  case (raises cs e)
  then show ?thesis by (simp add: organize_raises)
next
  case lists
  then show ?thesis by (simp add: organize_Dir Let_def)
qed

section \<open>Properties of a run\<close>

text \<open>
  Claim C9. The statistics record has a third counter \<open>skipped\<close>. The constructor sets it
  to 0 and no statement of a run changes it: a run in either mode, on whatever lies at the
  source path, ends with the counter it started with, so a fresh organizer ends with 0.
\<close>

theorem skipped_never_counted:
  "skipped (self_stats (FileOrganizer dr)) = 0
   \<and> skipped (final_stats (organize env (FileOrganizer dr) src)) = 0
   \<and> skipped (final_stats (organize env self src)) = skipped (self_stats self)"
proof -
  have g: "skipped (final_stats (organize env self src)) = skipped (self_stats self)" for self
  proof (cases src)
    case None
    then show ?thesis by (simp add: organize_def)
  next
    case (Some n)
    show ?thesis
    proof (cases n)
      case (File c)
      with Some show ?thesis by (simp add: organize_def)
    next
      case (Dir es)
      show ?thesis
      proof (cases env es rule: listing_cases)
        case (raises cs e)
        with Some Dir show ?thesis by (simp add: organize_raises)
      next
        case lists
        with Some Dir show ?thesis by (simp add: organize_Dir Let_def process_files_skipped)
      qed
    qed
  qed
  show ?thesis using g [of self] g [of "FileOrganizer dr"] by (simp add: FileOrganizer_def)
qed

lemma no_mutation_in_scan: "filter mutating (map (IsFile \<circ> fst) es) = []"
  by (induction es) (simp_all add: mutating_def)

lemma organize_dry:
  assumes "dry_run self"
  shows "final_fs (organize env self src) = src"
    and "filter mutating (fs_calls (organize env self src)) = []"
proof -
  have "final_fs (organize env self src) = src
      \<and> filter mutating (fs_calls (organize env self src)) = []"
  proof (cases src)
    case None
    then show ?thesis by (simp add: organize_def mutating_def)
  next
    case (Some n)
    show ?thesis
    proof (cases n)
      case (File c)
      with Some show ?thesis by (simp add: organize_def mutating_def)
    next
      case (Dir es)
      show ?thesis
      proof (cases env es rule: listing_cases)
        case (raises cs e)
        with Some Dir show ?thesis by (simp add: organize_raises)
      next
        case lists
        with Some Dir assms show ?thesis
          by (simp add: organize_Dir Let_def process_files_dry no_mutation_in_scan mutating_def)
      qed
    qed
  qed
  then show "final_fs (organize env self src) = src"
    and "filter mutating (fs_calls (organize env self src)) = []" by simp_all
qed

text \<open>
  Claim C3. A run in preview mode, on whatever lies at the source path, leaves the file
  system as it found it, and none of the calls it makes creates a directory or moves or
  renames a file.
\<close>

theorem preview_leaves_file_system:
  "final_fs (organize env (FileOrganizer True) src) = src
   \<and> filter mutating (fs_calls (organize env (FileOrganizer True) src)) = []
   \<and> final_fs (organize env (self\<lparr>dry_run := True\<rparr>) src) = src
   \<and> filter mutating (fs_calls (organize env (self\<lparr>dry_run := True\<rparr>) src)) = []"
proof -
  have a: "dry_run (FileOrganizer True)" by (simp add: FileOrganizer_def)
  have b: "dry_run (self\<lparr>dry_run := True\<rparr>)" by simp
  from organize_dry [OF a] organize_dry [OF b] show ?thesis by simp
qed



text \<open>
  Claim C10, as stated, fails. The file name made of the bytes of \<^verbatim>\<open>caf\<close>, the byte E9
  and the bytes of \<^verbatim>\<open>.jpg\<close> is not UTF-8, so a UTF-8 console cannot encode it. A preview run over a directory that holds a file of this name
  makes no per-file call on the file system, yet the print of the file name raises inside
  the \<^verbatim>\<open>try\<close> statement, the handler counts it, and the run ends with \<open>errors = 1\<close>.
\<close>

theorem preview_counts_an_error:
  "\<not> utf8_valid (''caf'' @ [CHR 0xE9] @ ''.jpg'')
   \<and> raised (organize utf8_console (FileOrganizer True)
        (Some (Dir [(''caf'' @ [CHR 0xE9] @ ''.jpg'', File 1)]))) = None
   \<and> final_stats (organize utf8_console (FileOrganizer True)
        (Some (Dir [(''caf'' @ [CHR 0xE9] @ ''.jpg'', File 1)])))
       = \<lparr>moved = 0, skipped = 0, errors = 1\<rparr>
   \<and> printed (organize utf8_console (FileOrganizer True)
        (Some (Dir [(''caf'' @ [CHR 0xE9] @ ''.jpg'', File 1)])))
       = [Banner, DryRunNotice, Scanning, Found 1, ErrorLine UnicodeEncodeError,
          SummaryHeader, WouldBeOrganized 0, ErrorsOccurred 1]
   \<and> fs_calls (organize utf8_console (FileOrganizer True)
        (Some (Dir [(''caf'' @ [CHR 0xE9] @ ''.jpg'', File 1)])))
       = [Iterdir, IsFile (''caf'' @ [CHR 0xE9] @ ''.jpg'')]"
  by code_simp

lemma no_per_file_call_in_listing: "filter per_file_call (fst (listing env es)) = []"
proof -
  have "filter per_file_call (fst (is_file_checks env es)) = []"
  proof (induction es)
    case Nil
    show ?case by simp
  next
    case (Cons a es)
    obtain name n where a: "a = (name, n)" by (cases a)
    obtain cs r where c: "is_file_checks env es = (cs, r)" by (cases "is_file_checks env es")
    from Cons.IH c have "filter per_file_call cs = []" by simp
    moreover have "\<not> per_file_call (IsFile name)" by (simp add: per_file_call_def)
    ultimately show ?case using a c by (auto split: option.splits sum.splits)
  qed
  moreover have "\<not> per_file_call Iterdir" by (simp add: per_file_call_def)
  ultimately show ?thesis by (auto simp: listing_def split: option.splits prod.splits)
qed

lemma organize_preview:
  "fs_calls (organize env (FileOrganizer True) (Some (Dir es))) = fst (listing env es)
   \<and> errors (final_stats (organize env (FileOrganizer True) (Some (Dir es))))
       = (if scan_error env es = None
          then length (filter (\<lambda>f. f \<noteq> script_name \<and> \<not> encodable env f) (scan es)) else 0)
   \<and> moved (final_stats (organize env (FileOrganizer True) (Some (Dir es))))
       = (if scan_error env es = None
          then length (filter (\<lambda>f. f \<noteq> script_name \<and> encodable env f) (scan es)) else 0)"
proof (cases env es rule: listing_cases)
  case (raises cs e)
  then show ?thesis by (simp add: organize_raises FileOrganizer_def)
next
  case lists
  then show ?thesis
    by (cases "scan es = []") (simp_all add: organize_Dir Let_def process_files_dry FileOrganizer_def)
qed

text \<open>
  Claim C10, amended. In preview mode the body for one file makes no call on the file
  system and leaves the directory alone, and the calls of a whole preview run are those of
  the scan: none creates a directory, checks the existence of a destination or moves a
  file. The handler is reached all the same, by the print of a file name: the body of a
  file other than the organizer's own raises exactly when the console cannot encode its
  name. A preview run over an existing directory that it can scan ends with \<open>errors\<close>
  equal to the number of such files, hence with \<open>errors = 0\<close> when the console can
  encode every scanned name.
\<close>

theorem preview_errors_are_unencodable_names:
  "fst (try_body env True name s) =
     (if name = script_name then Continue
      else if encodable env name then Completed else Raised UnicodeEncodeError)
   \<and> calls (snd (try_body env True name s)) = calls s
   \<and> root (snd (try_body env True name s)) = root s
   \<and> fs_calls (organize env (FileOrganizer True) (Some (Dir es))) = fst (listing env es)
   \<and> filter per_file_call (fs_calls (organize env (FileOrganizer True) (Some (Dir es)))) = []
   \<and> errors (final_stats (organize env (FileOrganizer True) (Some (Dir es))))
       = (if scan_error env es = None
          then length (filter (\<lambda>f. f \<noteq> script_name \<and> \<not> encodable env f) (scan es)) else 0)
   \<and> ((\<forall>f \<in> set (scan es). encodable env f)
        \<longrightarrow> errors (final_stats (organize env (FileOrganizer True) (Some (Dir es)))) = 0)"
proof -
  have 1: "fst (try_body env True name s) =
     (if name = script_name then Continue
      else if encodable env name then Completed else Raised UnicodeEncodeError)"
    by (rule try_body_outcome)
  have 2: "calls (snd (try_body env True name s)) = calls s
      \<and> root (snd (try_body env True name s)) = root s"
    by (simp add: try_body_def Let_def print_name step_defs)
  note 3 = organize_preview [of env es]
  have 4: "filter per_file_call (fs_calls (organize env (FileOrganizer True) (Some (Dir es)))) = []"
    using 3 by (simp add: no_per_file_call_in_listing)
  have 5: "errors (final_stats (organize env (FileOrganizer True) (Some (Dir es)))) = 0"
    if "\<forall>f \<in> set (scan es). encodable env f"
  proof -
    from that have "filter (\<lambda>f. f \<noteq> script_name \<and> \<not> encodable env f) (scan es) = []"
      by (simp add: filter_empty_conv)
    with 3 show ?thesis by simp
  qed
  from 1 2 3 4 5 show ?thesis by blast
qed

theorem preview_errors_are_unencodable_names_witness:
  "scan [(''a.jpg'', File 1), (''notes'', File 2)] = [''a.jpg'', ''notes'']
   \<and> map (encodable utf8_console) [''a.jpg'', ''notes''] = [True, True]
   \<and> errors (final_stats (organize utf8_console (FileOrganizer True)
        (Some (Dir [(''a.jpg'', File 1), (''notes'', File 2)])))) = 0
   \<and> moved (final_stats (organize utf8_console (FileOrganizer True)
        (Some (Dir [(''a.jpg'', File 1), (''notes'', File 2)])))) = 2
   \<and> fs_calls (organize utf8_console (FileOrganizer True)
        (Some (Dir [(''a.jpg'', File 1), (''notes'', File 2)])))
       = [Iterdir, IsFile ''a.jpg'', IsFile ''notes'']"
proof -
  define es where "es = [(''a.jpg'', File (1::nat)), (''notes'', File 2)]"
  have a: "scan es = [''a.jpg'', ''notes'']" unfolding es_def by code_simp
  have b: "map (encodable utf8_console) [''a.jpg'', ''notes''] = [True, True]" by code_simp
  have h: "\<forall>f \<in> set (scan es). encodable utf8_console f" using b unfolding a by simp
  have m: "moved (final_stats (organize utf8_console (FileOrganizer True) (Some (Dir es)))) = 2"
    unfolding es_def by code_simp
  have c: "fs_calls (organize utf8_console (FileOrganizer True) (Some (Dir es)))
       = [Iterdir, IsFile ''a.jpg'', IsFile ''notes'']"
    unfolding es_def by code_simp
  from preview_errors_are_unencodable_names [of utf8_console "''a.jpg''" _ es] h
  have "errors (final_stats (organize utf8_console (FileOrganizer True) (Some (Dir es)))) = 0"
    by blast
  with a b m c show ?thesis unfolding es_def by simp
qed

text \<open>
  Claim C6. In either mode, a file whose body runs to its end adds one to \<open>moved\<close> and
  leaves \<open>errors\<close>; a file whose body raises adds one to \<open>errors\<close> and leaves \<open>moved\<close>;
  the only other case is the organizer's own file, which is passed over and changes
  nothing. The loop goes through every file whatever happened before, so the two counters
  grow together by the number of files other than the organizer's own. No exception of
  the per-file work leaves the run: a run over an existing directory raises only what the
  scan before the loop raised, and ends normally when the scan did.
\<close>

theorem per_file_errors_are_counted:
  "(case fst (try_body env dr name s) of
      Completed \<Rightarrow>
        moved (stats (process_file env dr name s)) = moved (stats s) + 1
        \<and> errors (stats (process_file env dr name s)) = errors (stats s)
    | Raised e \<Rightarrow>
        errors (stats (process_file env dr name s)) = errors (stats s) + 1
        \<and> moved (stats (process_file env dr name s)) = moved (stats s)
    | Continue \<Rightarrow>
        name = script_name \<and> process_file env dr name s = s)
   \<and> moved (stats (process_files env dr files s))
       + errors (stats (process_files env dr files s))
       = moved (stats s) + errors (stats s) + length (filter (\<lambda>f. f \<noteq> script_name) files)
   \<and> raised (organize env self (Some (Dir es))) = scan_error env es
   \<and> moved (final_stats (organize env self (Some (Dir es))))
       + errors (final_stats (organize env self (Some (Dir es))))
       = moved (self_stats self) + errors (self_stats self)
         + (if scan_error env es = None
            then length (filter (\<lambda>f. f \<noteq> script_name) (scan es)) else 0)"
proof -
  have one: "(case fst (try_body env dr name s) of
      Completed \<Rightarrow>
        moved (stats (process_file env dr name s)) = moved (stats s) + 1
        \<and> errors (stats (process_file env dr name s)) = errors (stats s)
    | Raised e \<Rightarrow>
        errors (stats (process_file env dr name s)) = errors (stats s) + 1
        \<and> moved (stats (process_file env dr name s)) = moved (stats s)
    | Continue \<Rightarrow>
        name = script_name \<and> process_file env dr name s = s)"
  proof (cases "fst (try_body env dr name s)")
    case Completed
    then show ?thesis by (simp add: process_file_stats)
  next
    case Continue
    then have "name = script_name" by (simp add: try_body_Continue)
    with Continue show ?thesis by (simp add: process_file_def try_body_def)
  next
    case (Raised e)
    then show ?thesis by (simp add: process_file_stats)
  qed
  have run: "moved (final_stats (organize env self (Some (Dir es))))
       + errors (final_stats (organize env self (Some (Dir es))))
       = moved (self_stats self) + errors (self_stats self)
         + (if scan_error env es = None
            then length (filter (\<lambda>f. f \<noteq> script_name) (scan es)) else 0)"
  proof (cases env es rule: listing_cases)
    case (raises cs e)
    then show ?thesis by (simp add: organize_raises)
  next
    case lists
    then show ?thesis by (simp add: organize_Dir Let_def process_files_total)
  qed
  from one process_files_total [of env dr files s] organize_raised [of env self es] run
  show ?thesis by blast
qed

theorem per_file_errors_are_counted_witness:
  "fst (try_body utf8_console False ''Others''
      \<lparr>root = [(''Others'', File 1), (''a.jpg'', File 2)],
       stats = \<lparr>moved = 0, skipped = 0, errors = 0\<rparr>, out = [], calls = []\<rparr>)
     = Raised FileExistsError
   \<and> errors (stats (process_file utf8_console False ''Others''
        \<lparr>root = [(''Others'', File 1), (''a.jpg'', File 2)],
         stats = \<lparr>moved = 0, skipped = 0, errors = 0\<rparr>, out = [], calls = []\<rparr>)) = 1
   \<and> moved (stats (process_file utf8_console False ''Others''
        \<lparr>root = [(''Others'', File 1), (''a.jpg'', File 2)],
         stats = \<lparr>moved = 0, skipped = 0, errors = 0\<rparr>, out = [], calls = []\<rparr>)) = 0
   \<and> final_stats (organize utf8_console (FileOrganizer False)
        (Some (Dir [(''Others'', File 1), (''a.jpg'', File 2)])))
       = \<lparr>moved = 1, skipped = 0, errors = 1\<rparr>
   \<and> final_fs (organize utf8_console (FileOrganizer False)
        (Some (Dir [(''Others'', File 1), (''a.jpg'', File 2)])))
       = Some (Dir [(''Others'', File 1), (''Images'', Dir [(''a.jpg'', File 2)])])"
proof -
  define s0 where "s0 = \<lparr>root = [(''Others'', File (1::nat)), (''a.jpg'', File 2)],
       stats = \<lparr>moved = 0, skipped = 0, errors = 0\<rparr>, out = [], calls = []\<rparr>"
  have a: "fst (try_body utf8_console False ''Others'' s0) = Raised FileExistsError"
    unfolding s0_def by code_simp
  have z: "errors (stats s0) = 0" "moved (stats s0) = 0" by (simp_all add: s0_def)
  have b: "final_stats (organize utf8_console (FileOrganizer False)
        (Some (Dir [(''Others'', File 1), (''a.jpg'', File 2)])))
       = \<lparr>moved = 1, skipped = 0, errors = 1\<rparr>" by code_simp
  have c: "final_fs (organize utf8_console (FileOrganizer False)
        (Some (Dir [(''Others'', File 1), (''a.jpg'', File 2)])))
       = Some (Dir [(''Others'', File 1), (''Images'', Dir [(''a.jpg'', File 2)])])" by code_simp
  from per_file_errors_are_counted
    [of utf8_console False "''Others''" s0 "[]" "FileOrganizer False" "[]"]
  have "errors (stats (process_file utf8_console False ''Others'' s0)) = 1"
    and "moved (stats (process_file utf8_console False ''Others'' s0)) = 0"
    unfolding a by (simp_all add: z)
  with a b c show ?thesis unfolding s0_def by simp
qed





section \<open>Commit runs\<close>

lemma scan_iff:
  assumes "distinct (map fst es)"
  shows "k \<in> set (scan es) \<longleftrightarrow> (\<exists>c. map_of es k = Some (File c))"
proof -
  have "k \<in> set (scan es) \<longleftrightarrow> (\<exists>nd. (k, nd) \<in> set es \<and> is_file nd)"
    by (auto simp: scan_def intro: rev_image_eqI)
  also have "\<dots> \<longleftrightarrow> (\<exists>nd. map_of es k = Some nd \<and> is_file nd)"
    using assms by simp
  also have "\<dots> \<longleftrightarrow> (\<exists>c. map_of es k = Some (File c))"
  proof
    assume "\<exists>nd. map_of es k = Some nd \<and> is_file nd"
    then obtain nd where nd: "map_of es k = Some nd" "is_file nd" by blast
    then show "\<exists>c. map_of es k = Some (File c)" by (cases nd) (simp_all add: is_file_def)
  next
    assume "\<exists>c. map_of es k = Some (File c)"
    then show "\<exists>nd. map_of es k = Some nd \<and> is_file nd" by (auto simp: is_file_def)
  qed
  finally show ?thesis .
qed

lemma scan_distinct: "distinct (map fst es) \<Longrightarrow> distinct (scan es)"
  by (simp add: scan_def distinct_map_filter)

lemma commit_run_keeps_entries:
  assumes "map_of (dir_entries (root s) d) x = Some nd" "d \<notin> set files"
  shows "map_of (dir_entries (root (process_files env False files s)) d) x = Some nd"
  using assms
proof (induction files arbitrary: s)
  case Nil
  then show ?case by simp
next
  case (Cons f files)
  from Cons.prems have "d \<noteq> f" "d \<notin> set files" by auto
  from commit_step_keeps_entries [OF Cons.prems(1) \<open>d \<noteq> f\<close>]
  have "map_of (dir_entries (root (process_file env False f s)) d) x = Some nd" .
  from Cons.IH [OF this \<open>d \<notin> set files\<close>] show ?case by simp
qed

lemma commit_run_distinct:
  assumes "distinct (map fst (root s))"
  shows "distinct (map fst (root (process_files env False files s)))"
  using assms
  by (induction files arbitrary: s) (simp_all add: commit_step_distinct)

text \<open>A run that scanned its directory, in terms of the loop over the scanned files.\<close>

lemma organize_scanned:
  assumes "scan_error env es = None"
  shows "final_fs (organize env self (Some (Dir es)))
     = Some (Dir (root (process_files env (dry_run self) (scan es)
         \<lparr>root = es, stats = self_stats self,
          out = header (dry_run self) @ [Found (length (scan es))],
          calls = Iterdir # map (IsFile \<circ> fst) es\<rparr>)))"
    and "final_stats (organize env self (Some (Dir es)))
     = stats (process_files env (dry_run self) (scan es)
         \<lparr>root = es, stats = self_stats self,
          out = header (dry_run self) @ [Found (length (scan es))],
          calls = Iterdir # map (IsFile \<circ> fst) es\<rparr>)"
  using assms by (cases "scan es = []"; simp add: organize_Dir Let_def)+

lemma organize_unscanned:
  assumes "scan_error env es = Some e"
  shows "final_fs (organize env self (Some (Dir es))) = Some (Dir es)"
    and "final_stats (organize env self (Some (Dir es))) = self_stats self"
    and "raised (organize env self (Some (Dir es))) = Some e"
  using assms by (cases env es rule: listing_cases; simp add: organize_raises)+

lemma organize_keeps_entries:
  assumes "distinct (map fst es)" "map_of (dir_entries es d) x = Some nd" "\<not> dry_run self"
  shows "\<exists>r'. final_fs (organize env self (Some (Dir es))) = Some (Dir r')
           \<and> map_of (dir_entries r' d) x = Some nd"
proof (cases "scan_error env es")
  case (Some e)
  with assms(2) show ?thesis by (simp add: organize_unscanned)
next
  case None
  have "d \<notin> set (scan es)"
  proof
    assume "d \<in> set (scan es)"
    then obtain c where "map_of es d = Some (File c)" using scan_iff [OF assms(1)] by blast
    then have "dir_entries es d = []" by (simp add: dir_entries_def)
    with assms(2) show False by simp
  qed
  with commit_run_keeps_entries [of "\<lparr>root = es, stats = self_stats self,
          out = header False @ [Found (length (scan es))],
          calls = Iterdir # map (IsFile \<circ> fst) es\<rparr>" d x nd "scan es" env] assms(2,3)
  show ?thesis by (simp add: organize_scanned(1) [OF None])
qed

text \<open>
  Claim C2. In commit mode the destination chosen for a file never exists at the moment
  of the move. When the file's own name is free in the category folder it is taken as it
  is. When it is taken, the destination is the stem, an underscore, a counter and the
  suffix, for the first counter from 1 upwards whose name is free: every smaller counter
  was tried and found taken, and existence was checked once for each name tried. The move
  that follows therefore replaces nothing: every entry of every folder other than the
  moved file itself is still there, unchanged, after the turn, and after a whole commit
  run over a directory whose names are distinct.
\<close>

theorem conflict_resolution_never_overwrites:
  "\<not> exists (root s) category (fst (handle_conflict category name s))
   \<and> root (snd (handle_conflict category name s)) = root s
   \<and> (if exists (root s) category name
      then \<exists>n\<ge>1. fst (handle_conflict category name s) = candidate (stem name) (suffix name) n
             \<and> (\<forall>k. 1 \<le> k \<and> k < n
                   \<longrightarrow> exists (root s) category (candidate (stem name) (suffix name) k))
             \<and> calls (snd (handle_conflict category name s))
                 = calls s @ [Exists category name, Exists category name]
                   @ map (\<lambda>k. Exists category (candidate (stem name) (suffix name) k))
                       [1..<Suc n]
      else fst (handle_conflict category name s) = name)
   \<and> (map_of (dir_entries (root t) d) x = Some nd \<and> d \<noteq> f
        \<longrightarrow> map_of (dir_entries (root (process_file env False f t)) d) x = Some nd)
   \<and> (distinct (map fst es) \<and> map_of (dir_entries es d) x = Some nd
        \<longrightarrow> (\<exists>r'. final_fs (organize env (self\<lparr>dry_run := False\<rparr>) (Some (Dir es)))
                     = Some (Dir r')
                  \<and> map_of (dir_entries r' d) x = Some nd))"
proof -
  obtain dest s' where hc: "handle_conflict category name s = (dest, s')"
    by (cases "handle_conflict category name s") blast
  have 1: "\<not> exists (root s) category (fst (handle_conflict category name s))"
    using handle_conflict_free [OF hc] hc by simp
  have 2: "root (snd (handle_conflict category name s)) = root s"
    using handle_conflict_state(1) [OF hc] hc by simp
  have 3: "(if exists (root s) category name
      then \<exists>n\<ge>1. fst (handle_conflict category name s) = candidate (stem name) (suffix name) n
             \<and> (\<forall>k. 1 \<le> k \<and> k < n
                   \<longrightarrow> exists (root s) category (candidate (stem name) (suffix name) k))
             \<and> calls (snd (handle_conflict category name s))
                 = calls s @ [Exists category name, Exists category name]
                   @ map (\<lambda>k. Exists category (candidate (stem name) (suffix name) k))
                       [1..<Suc n]
      else fst (handle_conflict category name s) = name)"
  proof (cases "exists (root s) category name")
    case True
    with handle_conflict_spec [OF hc] obtain n where "1 \<le> n"
      "dest = candidate (stem name) (suffix name) n"
      "\<forall>k. 1 \<le> k \<and> k < n
          \<longrightarrow> exists (root s) category (candidate (stem name) (suffix name) k)"
      "calls s' = calls s @ [Exists category name, Exists category name]
                   @ map (\<lambda>k. Exists category (candidate (stem name) (suffix name) k))
                       [1..<Suc n]"
      by auto
    with True hc show ?thesis by auto
  next
    case False
    with handle_conflict_spec [OF hc] hc show ?thesis by simp
  qed
  have 4: "map_of (dir_entries (root t) d) x = Some nd \<and> d \<noteq> f
        \<longrightarrow> map_of (dir_entries (root (process_file env False f t)) d) x = Some nd"
    using commit_step_keeps_entries by blast
  have 5: "distinct (map fst es) \<and> map_of (dir_entries es d) x = Some nd
        \<longrightarrow> (\<exists>r'. final_fs (organize env (self\<lparr>dry_run := False\<rparr>) (Some (Dir es)))
                     = Some (Dir r')
                  \<and> map_of (dir_entries r' d) x = Some nd)"
    using organize_keeps_entries [of es d x nd "self\<lparr>dry_run := False\<rparr>" env] by simp
  from 1 2 3 4 5 show ?thesis by blast
qed

theorem conflict_resolution_never_overwrites_witness:
  "exists [(''Documents'', Dir [(''report.txt'', File 2), (''report_1.txt'', File 3)]),
           (''report.txt'', File 1)] ''Documents'' ''report.txt''
   \<and> fst (handle_conflict ''Documents'' ''report.txt''
        \<lparr>root = [(''Documents'', Dir [(''report.txt'', File 2), (''report_1.txt'', File 3)]),
                 (''report.txt'', File 1)],
         stats = \<lparr>moved = 0, skipped = 0, errors = 0\<rparr>, out = [], calls = []\<rparr>)
       = ''report_2.txt''
   \<and> \<not> exists [(''Documents'', Dir [(''report.txt'', File 2), (''report_1.txt'', File 3)]),
               (''report.txt'', File 1)] ''Documents'' ''report_2.txt''
   \<and> distinct (map fst [(''Documents'', Dir [(''report.txt'', File 2), (''report_1.txt'', File 3)]),
                        (''report.txt'', File 1)])
   \<and> map_of (dir_entries [(''Documents'', Dir [(''report.txt'', File 2), (''report_1.txt'', File 3)]),
                          (''report.txt'', File 1)] ''Documents'') ''report.txt'' = Some (File 2)
   \<and> final_fs (organize utf8_console (FileOrganizer False)
        (Some (Dir [(''Documents'', Dir [(''report.txt'', File 2), (''report_1.txt'', File 3)]),
                    (''report.txt'', File 1)])))
       = Some (Dir [(''Documents'', Dir [(''report.txt'', File 2), (''report_1.txt'', File 3),
                                         (''report_2.txt'', File 1)])])"
proof -
  define es where "es = [(''Documents'', Dir [(''report.txt'', File 2), (''report_1.txt'', File 3)]),
                         (''report.txt'', File (1::nat))]"
  define s0 where "s0 = \<lparr>root = es, stats = \<lparr>moved = 0, skipped = 0, errors = 0\<rparr>,
                         out = [], calls = []\<rparr>"
  have a: "exists es ''Documents'' ''report.txt''" unfolding es_def by code_simp
  have b: "fst (handle_conflict ''Documents'' ''report.txt'' s0) = ''report_2.txt''"
    unfolding s0_def es_def by code_simp
  have c: "distinct (map fst es)" unfolding es_def by simp
  have d: "map_of (dir_entries es ''Documents'') ''report.txt'' = Some (File 2)"
    unfolding es_def by code_simp
  have e: "final_fs (organize utf8_console (FileOrganizer False) (Some (Dir es)))
       = Some (Dir [(''Documents'', Dir [(''report.txt'', File 2), (''report_1.txt'', File 3),
                                         (''report_2.txt'', File 1)])])"
    unfolding es_def by code_simp
  have r: "root s0 = es" by (simp add: s0_def)
  from conflict_resolution_never_overwrites
    [of s0 "''Documents''" "''report.txt''" s0 "''Documents''" "''report.txt''" "File 2"
        "''other''" utf8_console es "FileOrganizer False"]
  have "\<not> exists es ''Documents'' ''report_2.txt''"
    unfolding b r by simp
  with a b c d e show ?thesis unfolding s0_def es_def by simp
qed





text \<open>What a commit loop leaves in the root.\<close>

lemma commit_run_files_shrink:
  assumes "map_of (root (process_files env False files s)) k = Some (File c)"
  shows "map_of (root s) k = Some (File c)"
  using assms
proof (induction files arbitrary: s)
  case Nil
  then show ?case by simp
next
  case (Cons f files)
  from Cons.prems have "map_of (root (process_files env False files (process_file env False f s))) k
      = Some (File c)" by simp
  from Cons.IH [OF this] show ?case by (rule commit_step_files_shrink)
qed

text \<open>A commit loop that counts no error leaves none of its files in the root, except
  the organizer's own.\<close>

lemma commit_run_clears:
  assumes "errors (stats (process_files env False files s)) = errors (stats s)"
    and "map_of (root (process_files env False files s)) k = Some (File c)"
    and "k \<in> set files"
  shows "k = script_name"
  using assms
proof (induction files arbitrary: s)
  case Nil
  then show ?case by simp
next
  case (Cons f files)
  let ?s1 = "process_file env False f s"
  have m1: "errors (stats s) \<le> errors (stats ?s1)" by (rule process_file_errors_mono)
  have m2: "errors (stats ?s1) \<le> errors (stats (process_files env False files ?s1))"
    by (rule process_files_errors_mono)
  from Cons.prems(1)
  have tot: "errors (stats (process_files env False files ?s1)) = errors (stats s)" by simp
  from m1 m2 tot have e1: "errors (stats ?s1) = errors (stats s)"
    and e2: "errors (stats (process_files env False files ?s1)) = errors (stats ?s1)"
    by simp_all
  from Cons.prems(2)
  have kf: "map_of (root (process_files env False files ?s1)) k = Some (File c)" by simp
  show ?case
  proof (cases "k \<in> set files")
    case True
    from Cons.IH [OF e2 kf True] show ?thesis .
  next
    case False
    with Cons.prems(3) have "k = f" by simp
    have k1: "map_of (root ?s1) k = Some (File c)" using kf by (rule commit_run_files_shrink)
    show ?thesis
    proof (rule ccontr)
      assume "k \<noteq> script_name"
      with \<open>k = f\<close> have "f \<noteq> script_name" by simp
      from commit_step_removes [OF this e1] k1 \<open>k = f\<close> show False by simp
    qed
  qed
qed

lemma process_file_self: "process_file env dr script_name s = s"
  by (simp add: process_file_def try_body_def)

lemma commit_run_keeps_self:
  assumes "map_of (root s) script_name = Some (File c)"
  shows "map_of (root (process_files env False files s)) script_name = Some (File c)"
  using assms
proof (induction files arbitrary: s)
  case Nil
  then show ?case by simp
next
  case (Cons f files)
  have "map_of (root (process_file env False f s)) script_name = Some (File c)"
  proof (cases "f = script_name")
    case True
    with Cons.prems show ?thesis by (simp add: process_file_self)
  next
    case False
    then have "script_name \<noteq> f" by simp
    from commit_step_other_files [OF Cons.prems this] show ?thesis .
  qed
  from Cons.IH [OF this] show ?case by simp
qed

lemma process_files_self:
  assumes "\<forall>f \<in> set files. f = script_name"
  shows "process_files env dr files s = s"
  using assms by (induction files arbitrary: s) (simp_all add: process_file_self)

lemma distinct_within_single:
  assumes "distinct xs" "set xs \<subseteq> {a}"
  shows "xs = (if a \<in> set xs then [a] else [])"
proof (cases xs)
  case Nil
  then show ?thesis by simp
next
  case (Cons x ys)
  with assms have "x = a" "a \<notin> set ys" "set ys \<subseteq> {a}" by auto
  then have "ys = []" by (cases ys) auto
  with Cons \<open>x = a\<close> show ?thesis by simp
qed

lemma filter_eq_single:
  assumes "distinct xs"
  shows "filter (\<lambda>f. f = a) xs = (if a \<in> set xs then [a] else [])"
proof -
  have "distinct (filter (\<lambda>f. f = a) xs)" using assms by simp
  moreover have "set (filter (\<lambda>f. f = a) xs) \<subseteq> {a}" by auto
  ultimately have "filter (\<lambda>f. f = a) xs
      = (if a \<in> set (filter (\<lambda>f. f = a) xs) then [a] else [])"
    by (rule distinct_within_single)
  then show ?thesis by simp
qed

text \<open>A commit run over a root whose only regular file can be the organizer's own.\<close>

lemma idle_run:
  assumes "\<forall>f \<in> set (scan r). f = script_name"
  shows "final_stats (organize env (FileOrganizer False) (Some (Dir r)))
      = \<lparr>moved = 0, skipped = 0, errors = 0\<rparr>"
    and "final_fs (organize env (FileOrganizer False) (Some (Dir r))) = Some (Dir r)"
    and "raised (organize env (FileOrganizer False) (Some (Dir r))) = None \<Longrightarrow>
      printed (organize env (FileOrganizer False) (Some (Dir r)))
        = (if scan r = [] then [Banner, Scanning, NoFilesFound]
           else [Banner, Scanning, Found (length (scan r)), SummaryHeader,
                 OrganizedSuccessfully 0])"
proof -
  have "final_stats (organize env (FileOrganizer False) (Some (Dir r)))
      = \<lparr>moved = 0, skipped = 0, errors = 0\<rparr>
    \<and> final_fs (organize env (FileOrganizer False) (Some (Dir r))) = Some (Dir r)
    \<and> (raised (organize env (FileOrganizer False) (Some (Dir r))) = None \<longrightarrow>
      printed (organize env (FileOrganizer False) (Some (Dir r)))
        = (if scan r = [] then [Banner, Scanning, NoFilesFound]
           else [Banner, Scanning, Found (length (scan r)), SummaryHeader,
                 OrganizedSuccessfully 0]))"
  proof (cases "scan_error env r")
    case (Some e)
    then show ?thesis by (simp add: organize_unscanned FileOrganizer_def)
  next
    case None
    then show ?thesis
      by (simp add: organize_Dir Let_def process_files_self [OF assms] FileOrganizer_def
          header_def print_summary_def)
  qed
  then show "final_stats (organize env (FileOrganizer False) (Some (Dir r)))
      = \<lparr>moved = 0, skipped = 0, errors = 0\<rparr>"
    and "final_fs (organize env (FileOrganizer False) (Some (Dir r))) = Some (Dir r)"
    and "raised (organize env (FileOrganizer False) (Some (Dir r))) = None \<Longrightarrow>
      printed (organize env (FileOrganizer False) (Some (Dir r)))
        = (if scan r = [] then [Banner, Scanning, NoFilesFound]
           else [Banner, Scanning, Found (length (scan r)), SummaryHeader,
                 OrganizedSuccessfully 0])"
    by simp_all
qed

text \<open>What the first commit run leaves in the root when it counted no error.\<close>

lemma clean_run_leaves_self:
  assumes "distinct (map fst es)" "scan_error env es = None"
    and "errors (final_stats (organize env (FileOrganizer False) (Some (Dir es)))) = 0"
  shows "\<exists>r'. final_fs (organize env (FileOrganizer False) (Some (Dir es))) = Some (Dir r')
           \<and> scan r' = filter (\<lambda>f. f = script_name) (scan es)"
proof -
  let ?s0 = "\<lparr>root = es, stats = self_stats (FileOrganizer False),
          out = header (dry_run (FileOrganizer False)) @ [Found (length (scan es))],
          calls = Iterdir # map (IsFile \<circ> fst) es\<rparr>"
  let ?r = "root (process_files env False (scan es) ?s0)"
  have nd: "dry_run (FileOrganizer False) = False" by (simp add: FileOrganizer_def)
  have fs: "final_fs (organize env (FileOrganizer False) (Some (Dir es))) = Some (Dir ?r)"
    using organize_scanned(1) [OF assms(2), of "FileOrganizer False"] by (simp add: nd)
  have e: "errors (stats (process_files env False (scan es) ?s0)) = errors (stats ?s0)"
    using assms(3) organize_scanned(2) [OF assms(2), of "FileOrganizer False"]
    by (simp add: nd FileOrganizer_def)
  have dr: "distinct (map fst ?r)" using assms(1) by (simp add: commit_run_distinct)
  have sub: "set (scan ?r) \<subseteq> {script_name}"
  proof
    fix k assume "k \<in> set (scan ?r)"
    then obtain c where k: "map_of ?r k = Some (File c)" using scan_iff [OF dr] by blast
    then have "map_of es k = Some (File c)"
      using commit_run_files_shrink [of env "scan es" ?s0 k c] by simp
    then have "k \<in> set (scan es)" using scan_iff [OF assms(1)] by blast
    from commit_run_clears [OF e k this] show "k \<in> {script_name}" by simp
  qed
  have mem: "script_name \<in> set (scan ?r) \<longleftrightarrow> script_name \<in> set (scan es)"
  proof
    assume "script_name \<in> set (scan ?r)"
    then obtain c where "map_of ?r script_name = Some (File c)" using scan_iff [OF dr] by blast
    then have "map_of es script_name = Some (File c)"
      using commit_run_files_shrink [of env "scan es" ?s0 script_name c] by simp
    then show "script_name \<in> set (scan es)" using scan_iff [OF assms(1)] by blast
  next
    assume "script_name \<in> set (scan es)"
    then obtain c where "map_of (root ?s0) script_name = Some (File c)"
      using scan_iff [OF assms(1)] by auto
    then have "map_of ?r script_name = Some (File c)" by (rule commit_run_keeps_self)
    then show "script_name \<in> set (scan ?r)" using scan_iff [OF dr] by blast
  qed
  have "scan ?r = (if script_name \<in> set (scan ?r) then [script_name] else [])"
    using scan_distinct [OF dr] sub by (rule distinct_within_single)
  also have "\<dots> = filter (\<lambda>f. f = script_name) (scan es)"
    using filter_eq_single [OF scan_distinct [OF assms(1)], of script_name] mem by simp
  finally show ?thesis using fs by simp
qed

text \<open>
  Claim C8, as stated, fails. With the files \<^verbatim>\<open>a.jpg\<close> and \<^verbatim>\<open>Images\<close> in the root, the
  first commit run fails on \<^verbatim>\<open>a.jpg\<close> (the folder \<^verbatim>\<open>Images\<close> cannot be created over the
  file) and moves \<^verbatim>\<open>Images\<close> to \<^verbatim>\<open>Others\<close>; the root still holds \<^verbatim>\<open>a.jpg\<close> and the
  second run moves it. A file named like the organizer's own file is passed over and
  stays in the root as well, so the root is not empty of regular files after a first run
  without any error either.
\<close>

theorem second_commit_run_moves_a_file:
  "final_fs (organize utf8_console (FileOrganizer False)
      (Some (Dir [(''a.jpg'', File 1), (''Images'', File 2)])))
     = Some (Dir [(''a.jpg'', File 1), (''Others'', Dir [(''Images'', File 2)])])
   \<and> moved (final_stats (organize utf8_console (FileOrganizer False)
        (final_fs (organize utf8_console (FileOrganizer False)
           (Some (Dir [(''a.jpg'', File 1), (''Images'', File 2)])))))) = 1
   \<and> final_stats (organize utf8_console (FileOrganizer False)
        (Some (Dir [(''file_organizer.py'', File 1)])))
     = \<lparr>moved = 0, skipped = 0, errors = 0\<rparr>
   \<and> final_fs (organize utf8_console (FileOrganizer False)
        (Some (Dir [(''file_organizer.py'', File 1)])))
     = Some (Dir [(''file_organizer.py'', File 1)])"
  by code_simp

text \<open>
  Claim C8, amended. Let the names of the directory be distinct and let the first commit
  run count no error. Then a second commit run in the same environment moves nothing: it
  ends with \<open>moved = 0\<close> and \<open>errors = 0\<close> and leaves the file system as the first run
  left it. When the first run ended normally, the only regular file left in the root is
  the organizer's own file, if the directory held one: every other scanned file was moved
  to its folder. A second run then counts nothing whatever its environment, and when it
  ends normally it prints the summary with \<open>moved = 0\<close> if the organizer's own file is
  in the root, and the no-files notice with no summary otherwise.
\<close>

theorem second_commit_run_moves_nothing:
  assumes "distinct (map fst es)"
    and "errors (final_stats (organize env (FileOrganizer False) (Some (Dir es)))) = 0"
  shows "final_stats (organize env (FileOrganizer False)
           (final_fs (organize env (FileOrganizer False) (Some (Dir es)))))
       = \<lparr>moved = 0, skipped = 0, errors = 0\<rparr>
     \<and> final_fs (organize env (FileOrganizer False)
           (final_fs (organize env (FileOrganizer False) (Some (Dir es)))))
       = final_fs (organize env (FileOrganizer False) (Some (Dir es)))
     \<and> (raised (organize env (FileOrganizer False) (Some (Dir es))) = None \<longrightarrow>
          (\<exists>r'. final_fs (organize env (FileOrganizer False) (Some (Dir es))) = Some (Dir r')
             \<and> scan r' = filter (\<lambda>f. f = script_name) (scan es)
             \<and> final_stats (organize env' (FileOrganizer False) (Some (Dir r')))
                 = \<lparr>moved = 0, skipped = 0, errors = 0\<rparr>
             \<and> final_fs (organize env' (FileOrganizer False) (Some (Dir r'))) = Some (Dir r')
             \<and> (raised (organize env' (FileOrganizer False) (Some (Dir r'))) = None \<longrightarrow>
                  printed (organize env' (FileOrganizer False) (Some (Dir r')))
                    = (if script_name \<in> set (scan es)
                       then [Banner, Scanning, Found 1, SummaryHeader, OrganizedSuccessfully 0]
                       else [Banner, Scanning, NoFilesFound]))))"
proof (cases "scan_error env es")
  case (Some e)
  have fs: "final_fs (organize env (FileOrganizer False) (Some (Dir es))) = Some (Dir es)"
    by (rule organize_unscanned(1) [OF Some])
  have "raised (organize env (FileOrganizer False) (Some (Dir es))) \<noteq> None"
    by (simp add: organize_unscanned(3) [OF Some])
  then show ?thesis unfolding fs by (simp add: organize_unscanned [OF Some] FileOrganizer_def)
next
  case None
  from clean_run_leaves_self [OF assms(1) None assms(2)]
  obtain r' where fs: "final_fs (organize env (FileOrganizer False) (Some (Dir es))) = Some (Dir r')"
    and sc: "scan r' = filter (\<lambda>f. f = script_name) (scan es)"
    by blast
  have self: "\<forall>f \<in> set (scan r'). f = script_name" unfolding sc by simp
  have sc': "scan r' = (if script_name \<in> set (scan es) then [script_name] else [])"
    unfolding sc by (rule filter_eq_single [OF scan_distinct [OF assms(1)]])
  have pr: "printed (organize env' (FileOrganizer False) (Some (Dir r')))
        = (if script_name \<in> set (scan es)
           then [Banner, Scanning, Found 1, SummaryHeader, OrganizedSuccessfully 0]
           else [Banner, Scanning, NoFilesFound])"
    if "raised (organize env' (FileOrganizer False) (Some (Dir r'))) = None"
    using idle_run(3) [OF self that] by (simp add: sc')
  from fs sc pr idle_run(1,2) [OF self, of env] idle_run(1,2) [OF self, of env']
  show ?thesis by simp
qed

theorem second_commit_run_moves_nothing_witness:
  "distinct (map fst [(''file_organizer.py'', File 0), (''a.jpg'', File 1), (''b.mp3'', File 2)])
   \<and> final_stats (organize utf8_console (FileOrganizer False)
        (Some (Dir [(''file_organizer.py'', File 0), (''a.jpg'', File 1), (''b.mp3'', File 2)])))
       = \<lparr>moved = 2, skipped = 0, errors = 0\<rparr>
   \<and> raised (organize utf8_console (FileOrganizer False)
        (Some (Dir [(''file_organizer.py'', File 0), (''a.jpg'', File 1), (''b.mp3'', File 2)])))
       = None
   \<and> final_fs (organize utf8_console (FileOrganizer False)
        (Some (Dir [(''file_organizer.py'', File 0), (''a.jpg'', File 1), (''b.mp3'', File 2)])))
       = Some (Dir [(''file_organizer.py'', File 0), (''Images'', Dir [(''a.jpg'', File 1)]),
                    (''Audio'', Dir [(''b.mp3'', File 2)])])
   \<and> final_stats (organize utf8_console (FileOrganizer False)
        (Some (Dir [(''file_organizer.py'', File 0), (''Images'', Dir [(''a.jpg'', File 1)]),
                    (''Audio'', Dir [(''b.mp3'', File 2)])])))
       = \<lparr>moved = 0, skipped = 0, errors = 0\<rparr>
   \<and> printed (organize utf8_console (FileOrganizer False)
        (Some (Dir [(''file_organizer.py'', File 0), (''Images'', Dir [(''a.jpg'', File 1)]),
                    (''Audio'', Dir [(''b.mp3'', File 2)])])))
       = [Banner, Scanning, Found 1, SummaryHeader, OrganizedSuccessfully 0]"
proof -
  define es where "es = [(''file_organizer.py'', File (0::nat)), (''a.jpg'', File 1),
                         (''b.mp3'', File 2)]"
  define r where "r = [(''file_organizer.py'', File (0::nat)), (''Images'', Dir [(''a.jpg'', File 1)]),
                       (''Audio'', Dir [(''b.mp3'', File 2)])]"
  have a: "distinct (map fst es)" unfolding es_def by simp
  have b: "final_stats (organize utf8_console (FileOrganizer False) (Some (Dir es)))
       = \<lparr>moved = 2, skipped = 0, errors = 0\<rparr>"
    unfolding es_def by code_simp
  have c: "raised (organize utf8_console (FileOrganizer False) (Some (Dir es))) = None"
    unfolding es_def by code_simp
  have f: "final_fs (organize utf8_console (FileOrganizer False) (Some (Dir es))) = Some (Dir r)"
    unfolding es_def r_def by code_simp
  have m: "script_name \<in> set (scan es)" unfolding es_def by code_simp
  have n: "raised (organize utf8_console (FileOrganizer False) (Some (Dir r))) = None"
    unfolding r_def by code_simp
  have e: "errors (final_stats (organize utf8_console (FileOrganizer False) (Some (Dir es)))) = 0"
    using b by simp
  from second_commit_run_moves_nothing [OF a e, of utf8_console] c f m n
  have "final_stats (organize utf8_console (FileOrganizer False) (Some (Dir r)))
       = \<lparr>moved = 0, skipped = 0, errors = 0\<rparr>"
    and "printed (organize utf8_console (FileOrganizer False) (Some (Dir r)))
       = [Banner, Scanning, Found 1, SummaryHeader, OrganizedSuccessfully 0]"
    by simp_all
  with a b c f show ?thesis unfolding es_def r_def by simp
qed


end
